theory Spec2Isabelle
  imports Complex_Main "HOL-Library.Sublist" "HOL-Library.Multiset"
begin

section \<open>Candidate matching, bucketing and unification scripts\<close>

text \<open>
  A shallow embedding of the matching, bucketing, identity and unification logic of the
  hiring-recommendation scripts. Python \<open>str\<close> values are modelled as \<open>string\<close>
  (each \<open>char\<close> is one code point below 256), Python \<open>float\<close> values as \<open>real\<close>
  (exact arithmetic, no rounding, no NaN), Python \<open>int\<close> values as \<open>int\<close>.
  Exceptions are values of the type \<open>error\<close>.
\<close>

datatype error =
    IndexError
  | ValueError
  | ZeroDivisionError
  | EOFError
  | ServiceError
  | JSONDecodeError string

subsection \<open>Bucket classifier (match\_candidates.py, main)\<close>

definition HIRED_THRESHOLD :: real where
  "HIRED_THRESHOLD = 0.75"

definition SHORTLIST_THRESHOLD :: real where
  "SHORTLIST_THRESHOLD = 0.55"

definition REJECTED_THRESHOLD :: real where
  "REJECTED_THRESHOLD = 0.30"

text \<open>
  The \<open>if/elif/else\<close> chain of lines 75-82, with the three module constants taken as
  arguments; the labels are the one-letter strings the script assigns.
\<close>

definition bucket_of :: "real \<Rightarrow> real \<Rightarrow> real \<Rightarrow> real \<Rightarrow> string" where
  "bucket_of hired shortlist rejected score =
     (if score \<ge> hired then ''H''
      else if score \<ge> shortlist then ''S''
      else if score \<le> rejected then ''R''
      else ''N'')"

definition bucket :: "real \<Rightarrow> string" where
  "bucket score = bucket_of HIRED_THRESHOLD SHORTLIST_THRESHOLD REJECTED_THRESHOLD score"

subsection \<open>Python string operations used by the scripts\<close>

text \<open>
  \<open>str.isspace\<close> on the code points below 256: tab, line feed, vertical tab, form feed,
  carriage return, the separators 0x1c-0x1f, space, NEL (0x85) and no-break space (0xa0).
\<close>

definition isspace :: "char \<Rightarrow> bool" where
  "isspace c = (of_char c \<in> {9, 10, 11, 12, 13, 28, 29, 30, 31, 32, 133, 160 :: nat})"

text \<open>\<open>s.strip()\<close>: leading and trailing whitespace removed.\<close>

definition strip :: "string \<Rightarrow> string" where
  "strip s = rev (dropWhile isspace (rev (dropWhile isspace s)))"

definition startswith :: "string \<Rightarrow> string \<Rightarrow> bool" where
  "startswith s p = prefix p s"

text \<open>\<open>s.find(c)\<close> and \<open>s.rfind(c)\<close> for a one-character \<open>c\<close>: the index, or -1.\<close>

definition find_char :: "string \<Rightarrow> char \<Rightarrow> int" where
  "find_char s c = (if c \<in> set s then int (length (takeWhile (\<lambda>x. x \<noteq> c) s)) else - 1)"

definition rfind_char :: "string \<Rightarrow> char \<Rightarrow> int" where
  "rfind_char s c =
     (if c \<in> set s then int (length s) - 1 - int (length (takeWhile (\<lambda>x. x \<noteq> c) (rev s)))
      else - 1)"

text \<open>\<open>xs[i:j]\<close> with Python's treatment of negative and out-of-range bounds.\<close>

definition slice :: "'a list \<Rightarrow> int \<Rightarrow> int \<Rightarrow> 'a list" where
  "slice xs i j =
     (let n = int (length xs);
          lo = (if i < 0 then max (i + n) 0 else min i n);
          hi = (if j < 0 then max (j + n) 0 else min j n)
      in take (nat (hi - lo)) (drop (nat lo) xs))"

text \<open>\<open>min(xs, default=d)\<close>.\<close>

definition min_default :: "int list \<Rightarrow> int \<Rightarrow> int" where
  "min_default xs d = (case xs of [] \<Rightarrow> d | y # ys \<Rightarrow> fold min ys y)"

text \<open>\<open>s.find(sub)\<close> for a substring: the index of the first occurrence, if any.\<close>

fun find_sub :: "string \<Rightarrow> string \<Rightarrow> nat option" where
  "find_sub sub [] = (if sub = [] then Some 0 else None)"
| "find_sub sub (c # cs) =
     (if prefix sub (c # cs) then Some 0 else map_option Suc (find_sub sub cs))"

text \<open>\<open>sub in s\<close>.\<close>

definition contains :: "string \<Rightarrow> string \<Rightarrow> bool" where
  "contains s sub = (find_sub sub s \<noteq> None)"

text \<open>
  \<open>s.split(sep, n)\<close> for a non-empty separator: at most \<open>n\<close> splits, left to right.
  \<open>s.split(sep)\<close> has no limit; a string of length \<open>k\<close> holds at most \<open>k\<close>
  occurrences of a non-empty separator, so \<open>k\<close> splits are all of them.
\<close>

fun splitn :: "string \<Rightarrow> nat \<Rightarrow> string \<Rightarrow> string list" where
  "splitn sep 0 s = [s]"
| "splitn sep (Suc n) s =
     (case find_sub sep s of
        None \<Rightarrow> [s]
      | Some i \<Rightarrow> take i s # splitn sep n (drop (i + length sep) s))"

definition split_all :: "string \<Rightarrow> string \<Rightarrow> string list" where
  "split_all sep s = splitn sep (length s) s"

text \<open>\<open>xs[i]\<close> for a non-negative index; out of range raises IndexError.\<close>

definition index_list :: "'a list \<Rightarrow> nat \<Rightarrow> error + 'a" where
  "index_list xs i = (if i < length xs then Inr (xs ! i) else Inl IndexError)"

text \<open>\<open>s.replace(old, new, 1)\<close>: the first occurrence only.\<close>

definition replace1 :: "string \<Rightarrow> string \<Rightarrow> string \<Rightarrow> string" where
  "replace1 s old new =
     (case find_sub old s of
        None \<Rightarrow> s
      | Some i \<Rightarrow> take i s @ new @ drop (i + length old) s)"

subsection \<open>LLM output recovery (inspect\_jd.py, clean\_gpt\_response)\<close>

definition is_ascii_letter :: "char \<Rightarrow> bool" where
  "is_ascii_letter c = (let n = (of_char c :: nat) in (65 \<le> n \<and> n \<le> 90) \<or> (97 \<le> n \<and> n \<le> 122))"

text \<open>
  \<^verbatim>\<open>re.sub(r"^```[a-zA-Z]*\n?", "", s)\<close>: without the MULTILINE flag the pattern can match
  at position 0 only; the letter run is greedy and the line feed optional.
\<close>

definition sub_leading_fence :: "string \<Rightarrow> string" where
  "sub_leading_fence s =
     (if prefix ''```'' s then
        (case dropWhile is_ascii_letter (drop 3 s) of
           [] \<Rightarrow> []
         | c # r \<Rightarrow> if c = CHR 0x0A then r else c # r)
      else s)"

text \<open>
  \<^verbatim>\<open>re.sub(r"\n?```$", "", s)\<close>: \<open>$\<close> matches at the end of the string and just before
  a line feed that ends the string, so a match is one of the four suffixes below; the
  leftmost match (the longest suffix) is the one replaced, and no second match can follow it.
\<close>

definition sub_trailing_fence :: "string \<Rightarrow> string" where
  "sub_trailing_fence s =
     (if suffix ''\<newline>```\<newline>'' s then take (length s - 5) s @ ''\<newline>''
      else if suffix ''\<newline>```'' s then take (length s - 4) s
      else if suffix ''```\<newline>'' s then take (length s - 4) s @ ''\<newline>''
      else if suffix ''```'' s then take (length s - 3) s
      else s)"

definition clean_gpt_response :: "string \<Rightarrow> string" where
  "clean_gpt_response raw_output =
     (let txt = strip raw_output in
      if startswith txt ''```'' then strip (sub_trailing_fence (sub_leading_fence txt))
      else
        let first_brace =
              min_default [pos \<leftarrow> [find_char txt CHR ''['', find_char txt CHR ''{'']. pos \<noteq> - 1] (- 1)
        in if first_brace = - 1 then txt
           else
             let last_brace = max (rfind_char txt CHR ''}'') (rfind_char txt CHR '']'')
             in if last_brace = - 1 then txt
                else slice txt first_brace (last_brace + 1))"

text \<open>Vocabulary for stating what the recovery returns.\<close>

definition is_open :: "char \<Rightarrow> bool" where
  "is_open c = (c = CHR ''['' \<or> c = CHR ''{'')"

definition is_close :: "char \<Rightarrow> bool" where
  "is_close c = (c = CHR ''}'' \<or> c = CHR '']'')"

definition first_open :: "string \<Rightarrow> nat" where
  "first_open s = length (takeWhile (\<lambda>x. \<not> is_open x) s)"

definition last_close :: "string \<Rightarrow> nat" where
  "last_close s = length s - 1 - length (takeWhile (\<lambda>x. \<not> is_close x) (rev s))"

subsection \<open>Unification tool: the rewritten id (unify\_resumes.py, lines 94-100)\<close>

definition new_id :: "string \<Rightarrow> string \<Rightarrow> string \<Rightarrow> error + string" where
  "new_id from_pref to_id old_id =
     (if contains old_id ''_chunk'' then
        (case index_list (splitn ''_chunk'' 1 old_id) 1 of
           Inl e \<Rightarrow> Inl e
         | Inr suff \<Rightarrow> Inr (to_id @ ''_chunk'' @ suff))
      else Inr (replace1 old_id from_pref to_id))"

subsection \<open>Unification tool: the run (unify\_resumes.py)\<close>

text \<open>
  A fetched vector object (its \<open>values\<close> and \<open>metadata\<close> attributes), a record passed
  to \<open>upsert\<close>, and the calls on the store that change it, in the order they are made.
\<close>

record vobj =
  vo_values :: "real list option"
  vo_metadata :: "(string \<times> string) list option"

type_synonym upsert_rec = "string \<times> real list \<times> (string \<times> string) list"

datatype event =
    Upserted "upsert_rec list"
  | UpsertFailed "upsert_rec list"
  | Deleted "string list"
  | DeleteFailed "string list"

datatype outcome = Finished | Exit int | Raised error

text \<open>The command-line arguments the run depends on.\<close>

record unify_args =
  from_prefix :: string
  to_id :: string
  delete_old :: bool
  batch_size :: int

text \<open>
  What the outside world answers: the ids \<open>ix.list\<close> yields (\<open>None\<close> when it raises),
  the \<open>vectors\<close> mapping \<open>ix.fetch\<close> returns for a batch (\<open>None\<close> when it raises),
  whether \<open>ix.upsert\<close> and \<open>ix.delete\<close> succeed on a batch, and the line the
  operator types at the prompt (\<open>None\<close> when \<open>input\<close> raises EOFError).
\<close>

record unify_env =
  list_ids :: "string list option"
  fetch :: "string list \<Rightarrow> (string \<Rightarrow> vobj option) option"
  upsert_ok :: "upsert_rec list \<Rightarrow> bool"
  delete_ok :: "string list \<Rightarrow> bool"
  confirm_input :: "string option"

text \<open>
  \<^verbatim>\<open>for i in range(0, len(lst), n): yield lst[i:i+n]\<close>. A zero step makes \<open>range\<close>
  raise ValueError; a negative step gives no batch for a non-empty list.
\<close>

fun chunks_pos :: "'a list \<Rightarrow> nat \<Rightarrow> 'a list list" where
  "chunks_pos lst n =
     (if n = 0 \<or> lst = [] then [] else take n lst # chunks_pos (drop n lst) n)"

declare chunks_pos.simps [simp del]

definition chunks :: "'a list \<Rightarrow> int \<Rightarrow> error + 'a list list" where
  "chunks lst n =
     (if n = 0 then Inl ValueError
      else if n < 0 then Inr []
      else Inr (chunks_pos lst (nat n)))"

text \<open>\<^verbatim>\<open>list(dict.fromkeys(xs))\<close>: the first occurrence of each element, in order.\<close>

definition dedupe :: "'a list \<Rightarrow> 'a list" where
  "dedupe xs = rev (remdups (rev xs))"

text \<open>\<^verbatim>\<open>meta[k] = v\<close> on a dict kept in insertion order.\<close>

fun meta_set :: "(string \<times> string) list \<Rightarrow> string \<Rightarrow> string \<Rightarrow> (string \<times> string) list" where
  "meta_set [] k v = [(k, v)]"
| "meta_set ((k', v') # m) k v = (if k' = k then (k', v) # m else (k', v') # meta_set m k v)"

text \<open>
  Lines 83-104: the records built for one batch. An id without a fetched object, or
  whose values are missing or empty, is skipped.
\<close>

fun to_upsert_of ::
  "unify_args \<Rightarrow> (string \<Rightarrow> vobj option) \<Rightarrow> string list \<Rightarrow> error + upsert_rec list" where
  "to_upsert_of args vecs [] = Inr []"
| "to_upsert_of args vecs (old_id # batch) =
     (case vecs old_id of
        None \<Rightarrow> to_upsert_of args vecs batch
      | Some v \<Rightarrow>
          (case vo_values v of
             None \<Rightarrow> to_upsert_of args vecs batch
           | Some vals \<Rightarrow>
               if vals = [] then to_upsert_of args vecs batch
               else
                 (case new_id (from_prefix args) (to_id args) old_id of
                    Inl e \<Rightarrow> Inl e
                  | Inr nid \<Rightarrow>
                      (case to_upsert_of args vecs batch of
                         Inl e \<Rightarrow> Inl e
                       | Inr rest \<Rightarrow>
                           Inr ((nid, vals,
                                 meta_set (case vo_metadata v of None \<Rightarrow> [] | Some m \<Rightarrow> m)
                                   ''candidate_id'' (to_id args)) # rest)))))"

text \<open>
  Lines 78-113: the batch loop. It stops the run with exit status 1 at the first failed
  upsert; an exception of \<open>fetch\<close> is not caught.
\<close>

fun upsert_loop ::
  "unify_args \<Rightarrow> unify_env \<Rightarrow> string list list \<Rightarrow> event list \<Rightarrow> outcome option \<times> event list" where
  "upsert_loop args env [] tr = (None, tr)"
| "upsert_loop args env (batch # rest) tr =
     (case fetch env batch of
        None \<Rightarrow> (Some (Raised ServiceError), tr)
      | Some vecs \<Rightarrow>
          (case to_upsert_of args vecs batch of
             Inl e \<Rightarrow> (Some (Raised e), tr)
           | Inr to_upsert \<Rightarrow>
               if to_upsert = [] then upsert_loop args env rest tr
               else if upsert_ok env to_upsert then
                 upsert_loop args env rest (tr @ [Upserted to_upsert])
               else (Some (Exit 1), tr @ [UpsertFailed to_upsert])))"

text \<open>Lines 120-125: a failed delete is reported and the loop goes on.\<close>

fun delete_loop :: "unify_env \<Rightarrow> string list list \<Rightarrow> event list" where
  "delete_loop env [] = []"
| "delete_loop env (b # bs) =
     (if delete_ok env b then Deleted b else DeleteFailed b) # delete_loop env bs"

text \<open>The script from the scan (line 42) to its end: how it stops, and the calls it made.\<close>

definition unify_run :: "unify_args \<Rightarrow> unify_env \<Rightarrow> outcome \<times> event list" where
  "unify_run args env =
     (case list_ids env of
        None \<Rightarrow> (Exit 1, [])
      | Some listed \<Rightarrow>
          let found_ids = dedupe (filter (\<lambda>i. startswith i (from_prefix args)) listed)
          in if found_ids = [] then (Exit 0, [])
             else
               (case chunks found_ids (batch_size args) of
                  Inl e \<Rightarrow> (Raised e, [])
                | Inr batches \<Rightarrow>
                    (case upsert_loop args env batches [] of
                       (Some stop, tr) \<Rightarrow> (stop, tr)
                     | (None, tr) \<Rightarrow>
                         if delete_old args then
                           (case confirm_input env of
                              None \<Rightarrow> (Raised EOFError, tr)
                            | Some confirm \<Rightarrow>
                                if strip confirm = ''DELETE'' then
                                  (case chunks found_ids (batch_size args) of
                                     Inl e \<Rightarrow> (Raised e, tr)
                                   | Inr bs \<Rightarrow> (Finished, tr @ delete_loop env bs))
                                else (Finished, tr))
                         else (Finished, tr))))"

text \<open>Vocabulary for the trace, and a small store used as a concrete run.\<close>

definition is_delete :: "event \<Rightarrow> bool" where
  "is_delete ev = (case ev of Deleted b \<Rightarrow> True | DeleteFailed b \<Rightarrow> True | _ \<Rightarrow> False)"

definition is_upsert_failure :: "event \<Rightarrow> bool" where
  "is_upsert_failure ev = (case ev of UpsertFailed r \<Rightarrow> True | _ \<Rightarrow> False)"

definition unify_example_args :: unify_args where
  "unify_example_args = \<lparr>from_prefix = ''cand1'', to_id = ''cand_final'', delete_old = True, batch_size = 100\<rparr>"

definition unify_example_env :: "string \<Rightarrow> unify_env" where
  "unify_example_env typed =
     \<lparr>list_ids = Some [''cand1_chunk1_summary'', ''other_chunk1_summary''],
      fetch = (\<lambda>batch. Some (\<lambda>i. Some \<lparr>vo_values = Some [1], vo_metadata = None\<rparr>)),
      upsert_ok = (\<lambda>recs. True),
      delete_ok = (\<lambda>ids. True),
      confirm_input = Some typed\<rparr>"

subsection \<open>Candidate aggregator (list\_candidate\_vectors.py, lines 33-44)\<close>

text \<open>
  An item is one \<open>(vid, v)\<close> pair of the fetch responses, in the order the loops visit
  them: the vector id and the \<open>candidate_id\<close> entry of its metadata, if there is one.
\<close>

type_synonym fetched_item = "string \<times> string option"

text \<open>
  Line 39: \<^verbatim>\<open>(meta or {}).get("candidate_id") or vid.split("_chunk")[0]\<close>; a missing or
  empty metadata value falls back to the id's text before the first "_chunk". The list
  \<open>split\<close> returns is never empty, so its element 0 is its head.
\<close>

definition cid_of :: "fetched_item \<Rightarrow> string" where
  "cid_of item =
     (case snd item of
        Some c \<Rightarrow> if c \<noteq> [] then c else hd (split_all ''_chunk'' (fst item))
      | None \<Rightarrow> hd (split_all ''_chunk'' (fst item)))"

text \<open>
  \<^verbatim>\<open>mapping.setdefault(cid, []).append(vid)\<close> on a dict kept as an association list in
  insertion order, as Python dicts are.
\<close>

fun setdefault_append ::
  "(string \<times> string list) list \<Rightarrow> string \<Rightarrow> string \<Rightarrow> (string \<times> string list) list" where
  "setdefault_append [] k v = [(k, [v])]"
| "setdefault_append ((k', vs) # m) k v =
     (if k' = k then (k', vs @ [v]) # m else (k', vs) # setdefault_append m k v)"

definition group_by_candidate :: "fetched_item list \<Rightarrow> (string \<times> string list) list" where
  "group_by_candidate fetched =
     foldl (\<lambda>mapping item. setdefault_append mapping (cid_of item) (fst item)) [] fetched"

text \<open>
  \<^verbatim>\<open>sorted(mapping.items(), key=lambda x: len(x[1]), reverse=True)\<close>: Python's sort is
  stable also with \<open>reverse=True\<close> (equal keys keep their original order), which is a
  stable ascending sort on the negated key.
\<close>

definition sorted_by_count_desc ::
  "(string \<times> string list) list \<Rightarrow> (string \<times> string list) list" where
  "sorted_by_count_desc mapping = sort_key (\<lambda>x. - int (length (snd x))) mapping"

definition candidate_summary :: "fetched_item list \<Rightarrow> (string \<times> string list) list" where
  "candidate_summary fetched = sorted_by_count_desc (group_by_candidate fetched)"

subsection \<open>LLM response decoding (inspect\_jd.py, safe\_json\_load and main)\<close>

text \<open>
  A value returned by \<open>json.loads\<close>; \<open>JNull\<close> is Python's \<open>None\<close>. An object keeps
  its members as an association list with distinct keys.
\<close>

datatype json =
    JNull
  | JBool bool
  | JInt int
  | JFloat real
  | JStr string
  | JArr "json list"
  | JObj "(string \<times> json) list"

text \<open>
  \<^verbatim>\<open>re.search(r'(\{.*\}|\[.*\])', s, re.DOTALL)\<close>: the leftmost position holding a
  \<open>{\<close> with a \<open>}\<close> somewhere after it, or a \<open>[\<close> with a \<open>]\<close> somewhere after it;
  the greedy \<open>.*\<close> extends the match to the last such closing character.
\<close>

definition upto_last :: "char \<Rightarrow> string \<Rightarrow> string" where
  "upto_last c cs = rev (dropWhile (\<lambda>x. x \<noteq> c) (rev cs))"

fun re_search_block :: "string \<Rightarrow> string option" where
  "re_search_block [] = None"
| "re_search_block (c # cs) =
     (if c = CHR ''{'' \<and> CHR ''}'' \<in> set cs then Some (c # upto_last CHR ''}'' cs)
      else if c = CHR ''['' \<and> CHR '']'' \<in> set cs then Some (c # upto_last CHR '']'' cs)
      else re_search_block cs)"

text \<open>
  \<open>json.loads\<close> is the library's parser, taken as the argument \<open>loads\<close>
  (\<open>None\<close> when it raises JSONDecodeError). The final \<open>raise\<close> re-raises the error
  of the first attempt.
\<close>

definition safe_json_load :: "(string \<Rightarrow> json option) \<Rightarrow> string \<Rightarrow> error + json" where
  "safe_json_load loads s =
     (let cleaned = clean_gpt_response s
      in case loads cleaned of
           Some v \<Rightarrow> Inr v
         | None \<Rightarrow>
             (case re_search_block s of
                Some m \<Rightarrow>
                  (case loads m of
                     Some v \<Rightarrow> Inr v
                   | None \<Rightarrow> Inl (JSONDecodeError cleaned))
              | None \<Rightarrow> Inl (JSONDecodeError cleaned)))"

text \<open>Python truth value of a parsed JSON value, \<open>x or y\<close>, \<open>isinstance\<close> and \<open>dict.get\<close>.\<close>

fun truthy :: "json \<Rightarrow> bool" where
  "truthy JNull = False"
| "truthy (JBool b) = b"
| "truthy (JInt i) = (i \<noteq> 0)"
| "truthy (JFloat r) = (r \<noteq> 0)"
| "truthy (JStr s) = (s \<noteq> [])"
| "truthy (JArr xs) = (xs \<noteq> [])"
| "truthy (JObj kvs) = (kvs \<noteq> [])"

definition py_or :: "json \<Rightarrow> json \<Rightarrow> json" where
  "py_or x y = (if truthy x then x else y)"

fun is_dict :: "json \<Rightarrow> bool" where
  "is_dict (JObj kvs) = True"
| "is_dict _ = False"

fun is_list :: "json \<Rightarrow> bool" where
  "is_list (JArr xs) = True"
| "is_list _ = False"

fun dict_get :: "json \<Rightarrow> string \<Rightarrow> json" where
  "dict_get (JObj kvs) k = (case map_of kvs k of Some v \<Rightarrow> v | None \<Rightarrow> JNull)"
| "dict_get _ k = JNull"

text \<open>Lines 257-266 of \<open>main\<close>: the value bound to \<open>parsed_list\<close>.\<close>

definition parsed_list_of :: "json \<Rightarrow> json" where
  "parsed_list_of parsed =
     (if is_dict parsed \<and> truthy (dict_get parsed ''evaluations'') then
        dict_get parsed ''evaluations''
      else if is_list parsed then parsed
      else if is_dict parsed then
        py_or (py_or (dict_get parsed ''results'') (dict_get parsed ''evaluations'')) (JArr [])
      else JArr [])"

subsection \<open>Identity normalizer (upload\_to\_pinecone.py, lines 47-73)\<close>

text \<open>
  \<open>str.lower\<close> on the code points below 256, and the character class
  \<^verbatim>\<open>[a-z0-9 _-]\<close> that \<open>slugify\<close> keeps.
\<close>

definition lower_char :: "char \<Rightarrow> char" where
  "lower_char c =
     (let n = (of_char c :: nat)
      in if (65 \<le> n \<and> n \<le> 90) \<or> (192 \<le> n \<and> n \<le> 222 \<and> n \<noteq> 215) then char_of (n + 32) else c)"

definition lower :: "string \<Rightarrow> string" where
  "lower s = map lower_char s"

definition slug_keep :: "char \<Rightarrow> bool" where
  "slug_keep c =
     (let n = (of_char c :: nat)
      in (97 \<le> n \<and> n \<le> 122) \<or> (48 \<le> n \<and> n \<le> 57)
         \<or> c = CHR '' '' \<or> c = CHR ''_'' \<or> c = CHR ''-'')"

text \<open>
  \<open>s.split()\<close>: the maximal runs of non-whitespace characters; the first argument is
  the run being read. \<open>sep.join(xs)\<close>.
\<close>

fun split_ws_from :: "string \<Rightarrow> string \<Rightarrow> string list" where
  "split_ws_from w [] = (if w = [] then [] else [w])"
| "split_ws_from w (c # cs) =
     (if isspace c then (if w = [] then split_ws_from [] cs else w # split_ws_from [] cs)
      else split_ws_from (w @ [c]) cs)"

definition split_ws :: "string \<Rightarrow> string list" where
  "split_ws s = split_ws_from [] s"

fun join :: "string \<Rightarrow> string list \<Rightarrow> string" where
  "join sep [] = []"
| "join sep [x] = x"
| "join sep (x # y # ys) = x @ sep @ join sep (y # ys)"

text \<open>
  \<^verbatim>\<open>s = (text or "").strip().lower(); s = re.sub(r"[^a-z0-9 _-]", " ", s)\<close>
  \<^verbatim>\<open>return "_".join(s.split())[:64] or "section"\<close>
\<close>

definition slugify :: "string option \<Rightarrow> string" where
  "slugify text =
     (let s = lower (strip (case text of None \<Rightarrow> [] | Some t \<Rightarrow> t));
          s = map (\<lambda>c. if slug_keep c then c else CHR '' '') s;
          r = take 64 (join ''_'' (split_ws s))
      in if r = [] then ''section'' else r)"

text \<open>
  \<open>hashlib.sha1(...).hexdigest()\<close> is the library's hash, taken as an argument; only
  its first \<open>n\<close> characters are used.
\<close>

definition short_hex :: "(string \<Rightarrow> string) \<Rightarrow> string option \<Rightarrow> nat \<Rightarrow> string" where
  "short_hex sha1_hexdigest s n =
     take n (sha1_hexdigest (case s of None \<Rightarrow> [] | Some t \<Rightarrow> t))"

text \<open>
  The entries of the object that \<open>deterministic_candidate_id\<close> reads: the candidate
  name in the metadata and at top level, the \<open>email\<close> and \<open>emails\<close> metadata, and
  \<open>full_text\<close>. What the libraries supply: the SHA-1 hex digest, the hex form of the
  UUID drawn by \<open>uuid.uuid4()\<close>, and \<open>json.dumps(obj, sort_keys=True)\<close>.
\<close>

record seed_obj =
  meta_candidate_name :: "string option"
  obj_candidate_name :: "string option"
  meta_email :: "string option"
  meta_emails :: "string list option"
  full_text :: "string option"

record id_env =
  sha1_hexdigest :: "string \<Rightarrow> string"
  uuid4_hex :: string
  json_dumps :: "seed_obj \<Rightarrow> string"

text \<open>Truth value of an optional string, \<open>x or y\<close>, and the e-mail lookup of line 62.\<close>

definition str_truthy :: "string option \<Rightarrow> bool" where
  "str_truthy x = (case x of None \<Rightarrow> False | Some s \<Rightarrow> s \<noteq> [])"

definition or_else :: "string option \<Rightarrow> string option \<Rightarrow> string option" where
  "or_else x y = (if str_truthy x then x else y)"

definition email_of :: "seed_obj \<Rightarrow> string option" where
  "email_of obj =
     or_else (meta_email obj)
       (case meta_emails obj of
          None \<Rightarrow> None
        | Some es \<Rightarrow> (case es of [] \<Rightarrow> None | e # _ \<Rightarrow> Some e))"

definition deterministic_candidate_id :: "id_env \<Rightarrow> seed_obj \<Rightarrow> string \<Rightarrow> string" where
  "deterministic_candidate_id env obj method =
     (let name = or_else (or_else (meta_candidate_name obj) (obj_candidate_name obj)) (Some [])
      in if method = ''uuid'' then ''resumes_'' @ take 12 (uuid4_hex env)
         else if method = ''email'' \<and> str_truthy (email_of obj) then
           ''resumes_''
             @ slugify (or_else name
                          (Some (hd (split_all ''@'' (case email_of obj of None \<Rightarrow> [] | Some e \<Rightarrow> e)))))
             @ ''_'' @ short_hex (sha1_hexdigest env) (email_of obj) 6
         else if method = ''name'' \<and> str_truthy name then
           ''resumes_'' @ slugify name @ ''_'' @ short_hex (sha1_hexdigest env) name 6
         else if method = ''content_hash'' then
           ''resumes_''
             @ short_hex (sha1_hexdigest env) (or_else (full_text obj) (Some (json_dumps env obj))) 6
         else ''resumes_'' @ take 12 (uuid4_hex env))"

text \<open>\<open>str(i)\<close> for an integer, as the f-string of \<open>build_vector_id\<close> formats it.\<close>

fun str_nat :: "nat \<Rightarrow> string" where
  "str_nat n = (if n < 10 then [char_of (48 + n)] else str_nat (n div 10) @ [char_of (48 + n mod 10)])"

declare str_nat.simps [simp del]

definition str_int :: "int \<Rightarrow> string" where
  "str_int i = (if i < 0 then CHR ''-'' # str_nat (nat (- i)) else str_nat (nat i))"

definition build_vector_id :: "string \<Rightarrow> int \<Rightarrow> string \<Rightarrow> string" where
  "build_vector_id candidate_id chunk_index section =
     candidate_id @ ''_chunk'' @ str_int chunk_index @ ''_'' @ slugify (Some section)"

text \<open>
  Example values: an object with no entry, and libraries whose digest is a given string
  (the SHA-1 of "Jean-Luc Picard" is efa38c6037b5c904067e82eb13cb8ca5a22b693c).
\<close>

definition empty_seed_obj :: seed_obj where
  "empty_seed_obj = \<lparr>meta_candidate_name = None, obj_candidate_name = None, meta_email = None,
             meta_emails = None, full_text = None\<rparr>"

definition example_id_env :: "string \<Rightarrow> id_env" where
  "example_id_env digest = \<lparr>sha1_hexdigest = (\<lambda>s. digest), uuid4_hex = ''0123456789abcdef0123456789abcdef'',
                        json_dumps = (\<lambda>obj. ''{}'')\<rparr>"

text \<open>
  The character sets of the identifiers: lowercase alphanumerics and underscore; hex
  digits; and the former together with the hyphen.
\<close>

definition is_id_char :: "char \<Rightarrow> bool" where
  "is_id_char c =
     (let n = (of_char c :: nat)
      in (97 \<le> n \<and> n \<le> 122) \<or> (48 \<le> n \<and> n \<le> 57) \<or> c = CHR ''_'')"

definition is_hex_char :: "char \<Rightarrow> bool" where
  "is_hex_char c = (let n = (of_char c :: nat) in (48 \<le> n \<and> n \<le> 57) \<or> (97 \<le> n \<and> n \<le> 102))"

definition is_key_char :: "char \<Rightarrow> bool" where
  "is_key_char c = (is_id_char c \<or> c = CHR ''-'')"

section \<open>Properties\<close>

subsection \<open>Bucket classifier\<close>

text \<open>
  C1 (as the specification states it, refuted): with thresholds (0.75, 0.55, 0.30) the
  classifier is said to return the label "Hired" for the score 0.80. The script assigns
  the one-letter label "H".
\<close>

theorem bucket_label_counterexample:
  "bucket 0.80 = ''H'' \<and> bucket 0.80 \<noteq> ''Hired''"
  by (simp add: bucket_def bucket_of_def HIRED_THRESHOLD_def)

text \<open>
  C1 (amended): for every score and every threshold triple with
  hired \<ge> shortlist \<ge> rejected, exactly one of the four labels "H", "S", "R", "N" is
  returned, first match wins: "H" iff score \<ge> hired; "S" iff shortlist \<le> score < hired;
  "R" iff score \<le> rejected and score < shortlist; "N" iff the score lies strictly
  between rejected and shortlist. With (0.75, 0.55, 0.30): 0.80 and the boundary 0.75
  give "H", 0.60 gives "S", 0.40 gives "N", 0.10 gives "R".
\<close>

theorem bucket_first_match_wins:
  assumes "hired \<ge> shortlist" and "shortlist \<ge> rejected"
  shows "bucket_of hired shortlist rejected s \<in> {''H'', ''S'', ''R'', ''N''}
    \<and> (bucket_of hired shortlist rejected s = ''H'' \<longleftrightarrow> s \<ge> hired)
    \<and> (bucket_of hired shortlist rejected s = ''S'' \<longleftrightarrow> shortlist \<le> s \<and> s < hired)
    \<and> (bucket_of hired shortlist rejected s = ''R'' \<longleftrightarrow> s \<le> rejected \<and> s < shortlist)
    \<and> (bucket_of hired shortlist rejected s = ''N'' \<longleftrightarrow> rejected < s \<and> s < shortlist)
    \<and> bucket 0.80 = ''H'' \<and> bucket 0.60 = ''S'' \<and> bucket 0.40 = ''N''
    \<and> bucket 0.10 = ''R'' \<and> bucket 0.75 = ''H'' \<and> bucket 0.75 \<noteq> ''S''"
  using assms
  by (auto simp: bucket_def bucket_of_def HIRED_THRESHOLD_def SHORTLIST_THRESHOLD_def
      REJECTED_THRESHOLD_def)

theorem bucket_first_match_wins_witness:
  "(0.75::real) \<ge> 0.55 \<and> (0.55::real) \<ge> 0.30
   \<and> bucket_of 0.75 0.55 0.30 0.75 = ''H''
   \<and> bucket_of 0.75 0.55 0.30 0.55 = ''S''
   \<and> bucket_of 0.75 0.55 0.30 0.30 = ''R''
   \<and> bucket_of 0.75 0.55 0.30 0.31 = ''N''"
proof -
  have h1: "(0.75::real) \<ge> 0.55" and h2: "(0.55::real) \<ge> 0.30" by simp_all
  show ?thesis
    using h1 h2
      bucket_first_match_wins [OF h1 h2, of "0.75"]
      bucket_first_match_wins [OF h1 h2, of "0.55"]
      bucket_first_match_wins [OF h1 h2, of "0.30"]
      bucket_first_match_wins [OF h1 h2, of "0.31"]
    by simp
qed

subsection \<open>Substring search\<close>

lemma find_sub_Some:
  "find_sub sub s = Some i \<Longrightarrow>
     \<exists>pre suf. s = pre @ sub @ suf \<and> length pre = i
       \<and> (\<forall>pre' suf'. s = pre' @ sub @ suf' \<longrightarrow> i \<le> length pre')"
proof (induction s arbitrary: i)
  case Nil
  then show ?case by (auto split: if_splits)
next
  case (Cons c cs)
  show ?case
  proof (cases "prefix sub (c # cs)")
    case True
    then have "i = 0" using Cons.prems by simp
    moreover from True obtain suf where "c # cs = [] @ sub @ suf" by (auto simp: prefix_def)
    ultimately show ?thesis by (metis le0 list.size(3))
  next
    case False
    then obtain j where j: "find_sub sub cs = Some j" and i: "i = Suc j"
      using Cons.prems by auto
    from Cons.IH [OF j] obtain pre suf where
      cs: "cs = pre @ sub @ suf" and len: "length pre = j"
      and mn: "\<forall>pre' suf'. cs = pre' @ sub @ suf' \<longrightarrow> j \<le> length pre'" by blast
    have "c # cs = (c # pre) @ sub @ suf" using cs by simp
    moreover have "length (c # pre) = i" using len i by simp
    moreover have "\<forall>pre' suf'. c # cs = pre' @ sub @ suf' \<longrightarrow> i \<le> length pre'"
    proof (intro allI impI)
      fix pre' suf'
      assume e: "c # cs = pre' @ sub @ suf'"
      show "i \<le> length pre'"
      proof (cases pre')
        case Nil
        then have "prefix sub (c # cs)" using e by (simp add: prefix_def)
        with False show ?thesis by simp
      next
        case (Cons d p)
        then have "cs = p @ sub @ suf'" using e by simp
        then have "j \<le> length p" using mn by blast
        then show ?thesis using Cons i by simp
      qed
    qed
    ultimately show ?thesis by blast
  qed
qed

lemma find_sub_None: "find_sub sub s = None \<longleftrightarrow> \<not> sublist sub s"
proof (induction s)
  case Nil
  then show ?case by simp
next
  case (Cons c cs)
  then show ?case by (auto simp: sublist_Cons_right)
qed

lemma find_sub_prefix: "prefix sub s \<Longrightarrow> find_sub sub s = Some 0"
  by (cases s) auto

subsection \<open>LLM output recovery\<close>

lemma strip_last: "strip s \<noteq> [] \<Longrightarrow> \<not> isspace (last (strip s))"
proof -
  assume a: "strip s \<noteq> []"
  let ?d = "dropWhile isspace (rev (dropWhile isspace s))"
  from a have "?d \<noteq> []" by (simp add: strip_def)
  then have "\<not> isspace (hd ?d)" by (rule hd_dropWhile)
  moreover have "last (strip s) = hd ?d" using \<open>?d \<noteq> []\<close> by (simp add: strip_def last_rev)
  ultimately show ?thesis by simp
qed

lemma strip_snoc_space: "isspace c \<Longrightarrow> strip (xs @ [c]) = strip xs"
proof -
  assume c: "isspace c"
  show ?thesis
  proof (cases "\<forall>x\<in>set xs. isspace x")
    case True
    then have a: "dropWhile isspace xs = []"
      by (induction xs) auto
    from True c have b: "dropWhile isspace (xs @ [c]) = []"
      by (induction xs) auto
    show ?thesis unfolding strip_def a b by simp
  next
    case False
    then have "dropWhile isspace (xs @ [c]) = dropWhile isspace xs @ [c]"
      by (induction xs) auto
    then show ?thesis using c by (simp add: strip_def)
  qed
qed

lemma find_char_notin: "c \<notin> set s \<Longrightarrow> find_char s c = - 1"
  by (simp add: find_char_def)

lemma find_char_in: "c \<in> set s \<Longrightarrow> find_char s c = int (length (takeWhile (\<lambda>x. x \<noteq> c) s))"
  by (simp add: find_char_def)

lemma rfind_char_notin: "c \<notin> set s \<Longrightarrow> rfind_char s c = - 1"
  by (simp add: rfind_char_def)

lemma takeWhile_conj_length:
  "length (takeWhile (\<lambda>x. P x \<and> Q x) s) = min (length (takeWhile P s)) (length (takeWhile Q s))"
  by (induction s) auto

lemma length_takeWhile_notin: "c \<notin> set s \<Longrightarrow> length (takeWhile (\<lambda>x. x \<noteq> c) s) = length s"
  by (induction s) auto

lemma length_takeWhile_lt: "c \<in> set s \<Longrightarrow> length (takeWhile (\<lambda>x. x \<noteq> c) s) < length s"
  by (induction s) auto

lemma first_brace_eq:
  assumes "\<exists>c\<in>set s. is_open c"
  shows "min_default [pos \<leftarrow> [find_char s CHR ''['', find_char s CHR ''{'']. pos \<noteq> - 1] (- 1)
         = int (first_open s)"
proof -
  have eq: "first_open s = min (length (takeWhile (\<lambda>x. x \<noteq> CHR ''['') s))
                            (length (takeWhile (\<lambda>x. x \<noteq> CHR ''{'') s))"
    unfolding first_open_def is_open_def
    by (simp add: takeWhile_conj_length [symmetric])
  consider (both) "CHR ''['' \<in> set s" "CHR ''{'' \<in> set s"
    | (sq) "CHR ''['' \<in> set s" "CHR ''{'' \<notin> set s"
    | (cu) "CHR ''['' \<notin> set s" "CHR ''{'' \<in> set s"
    using assms by (auto simp: is_open_def)
  then show ?thesis
  proof cases
    case both
    then show ?thesis by (simp add: eq find_char_def min_default_def min_def)
  next
    case sq
    then show ?thesis
      using length_takeWhile_lt [of "CHR ''[''" s]
      by (simp add: eq find_char_def min_default_def length_takeWhile_notin)
  next
    case cu
    then show ?thesis
      using length_takeWhile_lt [of "CHR ''{''" s]
      by (simp add: eq find_char_def min_default_def length_takeWhile_notin)
  qed
qed

lemma first_brace_none:
  assumes "\<not> (\<exists>c\<in>set s. is_open c)"
  shows "min_default [pos \<leftarrow> [find_char s CHR ''['', find_char s CHR ''{'']. pos \<noteq> - 1] (- 1) = - 1"
proof -
  from assms have "CHR ''['' \<notin> set s" "CHR ''{'' \<notin> set s"
    by (auto simp: is_open_def)
  then show ?thesis by (simp add: find_char_def min_default_def)
qed

lemma last_brace_eq:
  assumes "\<exists>c\<in>set s. is_close c"
  shows "max (rfind_char s CHR ''}'') (rfind_char s CHR '']'') = int (last_close s)"
proof -
  let ?a = "length (takeWhile (\<lambda>x. x \<noteq> CHR ''}'') (rev s))"
  let ?b = "length (takeWhile (\<lambda>x. x \<noteq> CHR '']'') (rev s))"
  have eq: "length (takeWhile (\<lambda>x. \<not> is_close x) (rev s)) = min ?a ?b"
    unfolding is_close_def by (simp add: takeWhile_conj_length [symmetric])
  consider (both) "CHR ''}'' \<in> set s" "CHR '']'' \<in> set s"
    | (cu) "CHR ''}'' \<in> set s" "CHR '']'' \<notin> set s"
    | (sq) "CHR ''}'' \<notin> set s" "CHR '']'' \<in> set s"
    using assms by (auto simp: is_close_def)
  then show ?thesis
  proof cases
    case both
    then have "?a < length s" "?b < length s"
      using length_takeWhile_lt [of "CHR ''}''" "rev s"] length_takeWhile_lt [of "CHR '']''" "rev s"]
      by simp_all
    then show ?thesis using both
      by (simp add: last_close_def eq rfind_char_def max_def min_def)
  next
    case cu
    then have "?a < length s" "?b = length s"
      using length_takeWhile_lt [of "CHR ''}''" "rev s"] length_takeWhile_notin [of "CHR '']''" "rev s"]
      by simp_all
    then show ?thesis using cu
      by (simp add: last_close_def eq rfind_char_def max_def min_def)
  next
    case sq
    then have "?b < length s" "?a = length s"
      using length_takeWhile_lt [of "CHR '']''" "rev s"] length_takeWhile_notin [of "CHR ''}''" "rev s"]
      by simp_all
    then show ?thesis using sq
      by (simp add: last_close_def eq rfind_char_def max_def min_def)
  qed
qed

lemma last_brace_none:
  assumes "\<not> (\<exists>c\<in>set s. is_close c)"
  shows "max (rfind_char s CHR ''}'') (rfind_char s CHR '']'') = - 1"
proof -
  from assms have "CHR ''}'' \<notin> set s" "CHR '']'' \<notin> set s"
    by (auto simp: is_close_def)
  then show ?thesis by (simp add: rfind_char_def)
qed

lemma take_length_takeWhile: "take (length (takeWhile P xs)) xs = takeWhile P xs"
  by (induction xs) auto

lemma drop_length_takeWhile: "drop (length (takeWhile P xs)) xs = dropWhile P xs"
  by (induction xs) auto

lemma bracket_slice:
  assumes op: "\<exists>c\<in>set s. is_open c" and cl: "\<exists>c\<in>set s. is_close c"
  defines "r \<equiv> slice s (int (first_open s)) (int (last_close s) + 1)"
  shows "(\<exists>pre post. s = pre @ r @ post \<and> (\<forall>c\<in>set pre. \<not> is_open c) \<and> r \<noteq> []
            \<and> is_open (hd r) \<and> is_close (last r) \<and> (\<forall>c\<in>set post. \<not> is_close c))
       \<or> (r = [] \<and> (\<exists>a b. s = a @ b \<and> (\<forall>c\<in>set a. \<not> is_open c) \<and> (\<forall>c\<in>set b. \<not> is_close c)))"
proof -
  define P where "P = takeWhile (\<lambda>x. \<not> is_open x) s"
  define R where "R = dropWhile (\<lambda>x. \<not> is_open x) s"
  define Q where "Q = rev (takeWhile (\<lambda>x. \<not> is_close x) (rev s))"
  define Q' where "Q' = rev (dropWhile (\<lambda>x. \<not> is_close x) (rev s))"
  have sPR: "s = P @ R" by (simp add: P_def R_def)
  have "Q' @ Q = rev (takeWhile (\<lambda>x. \<not> is_close x) (rev s) @ dropWhile (\<lambda>x. \<not> is_close x) (rev s))"
    unfolding Q_def Q'_def by (simp only: rev_append)
  then have sQ: "s = Q' @ Q" by simp
  have Pno: "\<forall>c\<in>set P. \<not> is_open c" unfolding P_def by (auto dest: set_takeWhileD)
  have Qno: "\<forall>c\<in>set Q. \<not> is_close c" unfolding Q_def by (auto dest: set_takeWhileD)
  have Rne: "R \<noteq> []" using op unfolding R_def by (simp add: dropWhile_eq_Nil_conv)
  have Rhd: "is_open (hd R)"
    using Rne hd_dropWhile [of "\<lambda>x. \<not> is_open x" s] unfolding R_def by simp
  have Q'ne: "Q' \<noteq> []" using cl unfolding Q'_def by (simp add: dropWhile_eq_Nil_conv)
  have Q'last: "is_close (last Q')"
    using Q'ne hd_dropWhile [of "\<lambda>x. \<not> is_close x" "rev s"] unfolding Q'_def
    by (simp add: last_rev)
  have i: "first_open s = length P" by (simp add: first_open_def P_def)
  have len1: "length s = length Q' + length Q" by (subst sQ) simp
  have len2: "length s = length P + length R" by (subst sPR) simp
  have "last_close s = length s - 1 - length Q" by (simp add: last_close_def Q_def)
  then have j: "last_close s + 1 = length Q'" using len1 Q'ne by (cases Q') simp_all
  have lenP: "length P < length s" using len2 Rne by (cases R) simp_all
  have lenQ': "length Q' \<le> length s" using len1 by simp
  have "int (last_close s) + 1 = int (length Q')" using j by linarith
  then have r: "r = take (length Q' - length P) (drop (length P) s)"
    using lenP lenQ' i unfolding r_def slice_def Let_def
    by (simp add: nat_diff_distrib')
  show ?thesis
  proof (cases "length P < length Q'")
    case True
    have "take (length P) s = P" by (subst sPR) simp
    moreover have "take (length P) s = take (length P) Q'" using True by (subst sQ) simp
    ultimately have tp: "take (length P) Q' = P" by simp
    have "take (length P) Q' @ drop (length P) Q' = Q'" by (rule append_take_drop_id)
    then have "P @ drop (length P) Q' = Q'" by (simp only: tp)
    then have "Q' = P @ drop (length P) Q'" by (rule sym)
    then obtain mid where mid: "Q' = P @ mid" by blast
    with True have midne: "mid \<noteq> []" by auto
    have smid: "s = P @ mid @ Q" using sQ mid by simp
    have "drop (length P) s = mid @ Q" by (subst smid) simp
    moreover have "length Q' - length P = length mid" using mid by simp
    ultimately have rmid: "r = mid" using r by simp
    have "P @ R = P @ mid @ Q" using smid sPR by simp
    then have "R = mid @ Q" by simp
    then have hd: "hd R = hd mid" using midne by simp
    have la: "last Q' = last mid" using mid midne by simp
    have "s = P @ r @ Q \<and> (\<forall>c\<in>set P. \<not> is_open c) \<and> r \<noteq> []
            \<and> is_open (hd r) \<and> is_close (last r) \<and> (\<forall>c\<in>set Q. \<not> is_close c)"
      using smid Pno Qno midne Rhd Q'last hd la rmid by simp
    then show ?thesis by blast
  next
    case False
    then have "r = []" using r by simp
    moreover have "take (length Q') s = Q'" by (subst sQ) simp
    moreover have "take (length Q') s = take (length Q') P" using False by (subst sPR) simp
    ultimately have "set Q' \<subseteq> set P" by (metis set_take_subset)
    then have "\<forall>c\<in>set Q'. \<not> is_open c" using Pno by blast
    then have "s = Q' @ Q \<and> (\<forall>c\<in>set Q'. \<not> is_open c) \<and> (\<forall>c\<in>set Q. \<not> is_close c)"
      using sQ Qno by simp
    then show ?thesis using \<open>r = []\<close> by blast
  qed
qed

lemma sub_leading_fence_decomp:
  assumes "prefix ''```'' s"
  shows "\<exists>tag nl. s = ''```'' @ tag @ nl @ sub_leading_fence s
           \<and> (\<forall>c\<in>set tag. is_ascii_letter c) \<and> (nl = [] \<or> nl = ''\<newline>'')
           \<and> (nl @ sub_leading_fence s = [] \<or> \<not> is_ascii_letter (hd (nl @ sub_leading_fence s)))
           \<and> (nl = [] \<longrightarrow> sub_leading_fence s = [] \<or> hd (sub_leading_fence s) \<noteq> CHR 0x0A)"
proof -
  define d where "d = drop 3 s"
  define tag where "tag = takeWhile is_ascii_letter d"
  define rest where "rest = dropWhile is_ascii_letter d"
  from assms obtain z where "s = ''```'' @ z" by (auto simp: prefix_def)
  then have s: "s = ''```'' @ d" by (simp add: d_def)
  have d: "d = tag @ rest" by (simp add: tag_def rest_def)
  have tagl: "\<forall>c\<in>set tag. is_ascii_letter c" unfolding tag_def by (auto dest: set_takeWhileD)
  have resthd: "rest = [] \<or> \<not> is_ascii_letter (hd rest)"
    using hd_dropWhile [of is_ascii_letter d] unfolding rest_def by blast
  have body: "sub_leading_fence s = (case rest of [] \<Rightarrow> [] | c # r \<Rightarrow> if c = CHR 0x0A then r else c # r)"
    using assms by (simp add: sub_leading_fence_def rest_def d_def)
  show ?thesis
  proof (cases rest)
    case Nil
    then have "sub_leading_fence s = []" using body by simp
    then have "s = ''```'' @ tag @ [] @ sub_leading_fence s \<and> (\<forall>c\<in>set tag. is_ascii_letter c)"
      using s d Nil tagl by simp
    then show ?thesis using \<open>sub_leading_fence s = []\<close> by blast
  next
    case (Cons c r)
    show ?thesis
    proof (cases "c = CHR 0x0A")
      case True
      then have b: "sub_leading_fence s = r" using body Cons by simp
      have "s = ''```'' @ tag @ ''\<newline>'' @ sub_leading_fence s" using s d Cons True b by simp
      moreover have "\<not> is_ascii_letter (hd (''\<newline>'' @ sub_leading_fence s))"
        by (simp add: is_ascii_letter_def)
      ultimately show ?thesis using tagl by blast
    next
      case False
      then have b: "sub_leading_fence s = rest" using body Cons by simp
      have "s = ''```'' @ tag @ [] @ sub_leading_fence s" using s d b by simp
      moreover have "\<not> is_ascii_letter (hd ([] @ sub_leading_fence s))" using b resthd Cons by simp
      moreover have "hd (sub_leading_fence s) \<noteq> CHR 0x0A" using b Cons False by simp
      ultimately show ?thesis using tagl by blast
    qed
  qed
qed

lemma sub_trailing_fence_strip:
  assumes "s = [] \<or> last s \<noteq> CHR 0x0A"
  shows "\<exists>inner fence. s = inner @ fence \<and> (fence = [] \<or> fence = ''```'')
           \<and> (fence = [] \<longrightarrow> \<not> suffix ''```'' inner)
           \<and> strip (sub_trailing_fence s) = strip inner"
proof -
  have n1: "\<not> suffix ''\<newline>```\<newline>'' s" using assms by (auto simp: suffix_def)
  have n2: "\<not> suffix ''```\<newline>'' s" using assms by (auto simp: suffix_def)
  show ?thesis
  proof (cases "suffix ''```'' s")
    case False
    then have "\<not> suffix ''\<newline>```'' s" by (auto simp: suffix_def)
    then have "sub_trailing_fence s = s" using n1 n2 False by (simp add: sub_trailing_fence_def)
    then have "s = s @ [] \<and> \<not> suffix ''```'' s \<and> strip (sub_trailing_fence s) = strip s"
      using False by simp
    then show ?thesis by blast
  next
    case True
    then obtain inner where inner: "s = inner @ ''```''" by (auto simp: suffix_def)
    have "strip (sub_trailing_fence s) = strip inner"
    proof (cases "suffix ''\<newline>```'' s")
      case False
      then show ?thesis using n1 n2 True inner by (simp add: sub_trailing_fence_def)
    next
      case sn: True
      then obtain i2 where i2: "s = i2 @ ''\<newline>```''" by (auto simp: suffix_def)
      then have "inner = i2 @ ''\<newline>''" using inner by simp
      then have "strip inner = strip i2" using strip_snoc_space [of "CHR 0x0A" i2]
        by (simp add: isspace_def)
      moreover have "sub_trailing_fence s = i2" using n1 sn i2 by (simp add: sub_trailing_fence_def)
      ultimately show ?thesis by simp
    qed
    then show ?thesis using inner by blast
  qed
qed

lemma clean_fence_case:
  assumes pre: "prefix ''```'' (strip raw)"
  shows "\<exists>tag nl inner fence. strip raw = ''```'' @ tag @ nl @ inner @ fence
           \<and> (\<forall>c\<in>set tag. is_ascii_letter c) \<and> (nl = [] \<or> nl = ''\<newline>'')
           \<and> (fence = [] \<or> fence = ''```'')
           \<and> (nl @ inner @ fence = [] \<or> \<not> is_ascii_letter (hd (nl @ inner @ fence)))
           \<and> (nl = [] \<longrightarrow> inner @ fence = [] \<or> hd (inner @ fence) \<noteq> CHR 0x0A)
           \<and> (fence = [] \<longrightarrow> \<not> suffix ''```'' inner)
           \<and> clean_gpt_response raw = strip inner"
proof -
  define stripped where "stripped = strip raw"
  define body where "body = sub_leading_fence stripped"
  from pre have p: "prefix ''```'' stripped" by (simp add: stripped_def)
  from sub_leading_fence_decomp [OF p] obtain tag nl where
    t: "stripped = ''```'' @ tag @ nl @ body" and tl: "\<forall>c\<in>set tag. is_ascii_letter c"
    and nl: "nl = [] \<or> nl = ''\<newline>''"
    and mx: "nl @ body = [] \<or> \<not> is_ascii_letter (hd (nl @ body))"
    and nn: "nl = [] \<longrightarrow> body = [] \<or> hd body \<noteq> CHR 0x0A"
    unfolding body_def by blast
  have "body = [] \<or> last body \<noteq> CHR 0x0A"
  proof (cases "body = []")
    case True then show ?thesis by simp
  next
    case False
    then have "last stripped = last body" by (subst t) simp
    moreover have "stripped \<noteq> []" using p by auto
    then have "\<not> isspace (last stripped)" unfolding stripped_def by (rule strip_last)
    ultimately have "\<not> isspace (last body)" by simp
    then show ?thesis by (auto simp: isspace_def)
  qed
  from sub_trailing_fence_strip [OF this] obtain inner fence where
    b: "body = inner @ fence" and f: "fence = [] \<or> fence = ''```''"
    and fs: "fence = [] \<longrightarrow> \<not> suffix ''```'' inner"
    and st: "strip (sub_trailing_fence body) = strip inner"
    by blast
  have "clean_gpt_response raw = strip (sub_trailing_fence body)"
    using p by (simp add: clean_gpt_response_def startswith_def Let_def stripped_def body_def)
  then have r: "clean_gpt_response raw = strip inner" using st by simp
  have "strip raw = ''```'' @ tag @ nl @ inner @ fence" using t b by (simp add: stripped_def)
  moreover have "nl @ inner @ fence = [] \<or> \<not> is_ascii_letter (hd (nl @ inner @ fence))"
    using mx b by simp
  moreover have "nl = [] \<longrightarrow> inner @ fence = [] \<or> hd (inner @ fence) \<noteq> CHR 0x0A"
    using nn b by simp
  ultimately show ?thesis using tl nl f fs r by blast
qed

lemma clean_bracket_case:
  assumes np: "\<not> prefix ''```'' (strip raw)"
    and op: "\<exists>c\<in>set (strip raw). is_open c" and cl: "\<exists>c\<in>set (strip raw). is_close c"
  shows "clean_gpt_response raw
           = slice (strip raw) (int (first_open (strip raw))) (int (last_close (strip raw)) + 1)"
proof -
  have "int (first_open (strip raw)) \<noteq> - 1" "int (last_close (strip raw)) \<noteq> - 1" by simp_all
  then show ?thesis
    using np unfolding clean_gpt_response_def startswith_def Let_def
      first_brace_eq [OF op] last_brace_eq [OF cl]
    by simp
qed

lemma clean_plain_case:
  assumes np: "\<not> prefix ''```'' (strip raw)"
    and no: "\<not> ((\<exists>c\<in>set (strip raw). is_open c) \<and> (\<exists>c\<in>set (strip raw). is_close c))"
  shows "clean_gpt_response raw = strip raw"
proof (cases "\<exists>c\<in>set (strip raw). is_open c")
  case False
  show ?thesis
    using np unfolding clean_gpt_response_def startswith_def Let_def first_brace_none [OF False]
    by simp
next
  case True
  with no have ncl: "\<not> (\<exists>c\<in>set (strip raw). is_close c)" by blast
  show ?thesis
    using np unfolding clean_gpt_response_def startswith_def Let_def
      first_brace_eq [OF True] last_brace_none [OF ncl]
    by simp
qed

text \<open>
  C2 (as the specification states it, refuted): when no opening bracket is found the
  function is said to return the original input text unchanged. The input " hi " has no
  bracket and comes back trimmed, as "hi".
\<close>

theorem clean_gpt_response_counterexample:
  "CHR ''['' \<notin> set '' hi '' \<and> CHR ''{'' \<notin> set '' hi ''
   \<and> clean_gpt_response '' hi '' = ''hi''
   \<and> clean_gpt_response '' hi '' \<noteq> '' hi ''"
  by (simp add: clean_gpt_response_def strip_def isspace_def startswith_def find_char_def
      min_default_def)

text \<open>
  C2 (amended): let t be the input with leading and trailing whitespace removed.
  If t starts with a code fence, then t is the fence, a maximal run of ASCII letters (the
  language tag), an optional line feed, an inner text and an optional closing fence
  (removed whenever t ends with one), and the result is the inner text trimmed.
  Otherwise, if t contains an opening bracket and a closing bracket, the result is the
  part of t from the first opening bracket through the last closing bracket inclusive
  (the empty string when the last closing bracket comes before the first opening bracket).
  Otherwise (no opening bracket, or no closing bracket) the result is t, the trimmed input.
\<close>

theorem clean_gpt_response_recovery:
  "(prefix ''```'' (strip raw) \<longrightarrow>
      (\<exists>tag nl inner fence. strip raw = ''```'' @ tag @ nl @ inner @ fence
           \<and> (\<forall>c\<in>set tag. is_ascii_letter c) \<and> (nl = [] \<or> nl = ''\<newline>'')
           \<and> (fence = [] \<or> fence = ''```'')
           \<and> (nl @ inner @ fence = [] \<or> \<not> is_ascii_letter (hd (nl @ inner @ fence)))
           \<and> (nl = [] \<longrightarrow> inner @ fence = [] \<or> hd (inner @ fence) \<noteq> CHR 0x0A)
           \<and> (fence = [] \<longrightarrow> \<not> suffix ''```'' inner)
           \<and> clean_gpt_response raw = strip inner))
   \<and> (\<not> prefix ''```'' (strip raw)
        \<and> (\<exists>c\<in>set (strip raw). is_open c) \<and> (\<exists>c\<in>set (strip raw). is_close c) \<longrightarrow>
      (\<exists>pre post. strip raw = pre @ clean_gpt_response raw @ post
           \<and> (\<forall>c\<in>set pre. \<not> is_open c) \<and> clean_gpt_response raw \<noteq> []
           \<and> is_open (hd (clean_gpt_response raw)) \<and> is_close (last (clean_gpt_response raw))
           \<and> (\<forall>c\<in>set post. \<not> is_close c))
      \<or> (clean_gpt_response raw = []
           \<and> (\<exists>a b. strip raw = a @ b \<and> (\<forall>c\<in>set a. \<not> is_open c) \<and> (\<forall>c\<in>set b. \<not> is_close c))))
   \<and> (\<not> prefix ''```'' (strip raw)
        \<and> \<not> ((\<exists>c\<in>set (strip raw). is_open c) \<and> (\<exists>c\<in>set (strip raw). is_close c)) \<longrightarrow>
      clean_gpt_response raw = strip raw)"
proof (intro conjI impI)
  assume "prefix ''```'' (strip raw)"
  then show "\<exists>tag nl inner fence. strip raw = ''```'' @ tag @ nl @ inner @ fence
           \<and> (\<forall>c\<in>set tag. is_ascii_letter c) \<and> (nl = [] \<or> nl = ''\<newline>'')
           \<and> (fence = [] \<or> fence = ''```'')
           \<and> (nl @ inner @ fence = [] \<or> \<not> is_ascii_letter (hd (nl @ inner @ fence)))
           \<and> (nl = [] \<longrightarrow> inner @ fence = [] \<or> hd (inner @ fence) \<noteq> CHR 0x0A)
           \<and> (fence = [] \<longrightarrow> \<not> suffix ''```'' inner)
           \<and> clean_gpt_response raw = strip inner"
    by (rule clean_fence_case)
next
  assume a: "\<not> prefix ''```'' (strip raw)
        \<and> (\<exists>c\<in>set (strip raw). is_open c) \<and> (\<exists>c\<in>set (strip raw). is_close c)"
  then have op: "\<exists>c\<in>set (strip raw). is_open c" and cl: "\<exists>c\<in>set (strip raw). is_close c"
    and np: "\<not> prefix ''```'' (strip raw)" by simp_all
  show "(\<exists>pre post. strip raw = pre @ clean_gpt_response raw @ post
           \<and> (\<forall>c\<in>set pre. \<not> is_open c) \<and> clean_gpt_response raw \<noteq> []
           \<and> is_open (hd (clean_gpt_response raw)) \<and> is_close (last (clean_gpt_response raw))
           \<and> (\<forall>c\<in>set post. \<not> is_close c))
      \<or> (clean_gpt_response raw = []
           \<and> (\<exists>a b. strip raw = a @ b \<and> (\<forall>c\<in>set a. \<not> is_open c) \<and> (\<forall>c\<in>set b. \<not> is_close c)))"
    using bracket_slice [OF op cl] unfolding clean_bracket_case [OF np op cl] .
next
  assume "\<not> prefix ''```'' (strip raw)
        \<and> \<not> ((\<exists>c\<in>set (strip raw). is_open c) \<and> (\<exists>c\<in>set (strip raw). is_close c))"
  then show "clean_gpt_response raw = strip raw" using clean_plain_case by blast
qed

theorem clean_gpt_response_recovery_witness:
  "prefix ''```'' (strip ''```json\<newline>[{\"a\":1}]\<newline>```'')
   \<and> (\<exists>tag nl inner fence.
         strip ''```json\<newline>[{\"a\":1}]\<newline>```'' = ''```'' @ tag @ nl @ inner @ fence
         \<and> clean_gpt_response ''```json\<newline>[{\"a\":1}]\<newline>```'' = strip inner)
   \<and> clean_gpt_response ''```json\<newline>[{\"a\":1}]\<newline>```'' = ''[{\"a\":1}]''
   \<and> \<not> prefix ''```'' (strip ''Here is the result: [{\"a\":1}] Thanks!'')
   \<and> (\<exists>c\<in>set (strip ''Here is the result: [{\"a\":1}] Thanks!''). is_open c)
   \<and> (\<exists>c\<in>set (strip ''Here is the result: [{\"a\":1}] Thanks!''). is_close c)
   \<and> (\<exists>pre post. strip ''Here is the result: [{\"a\":1}] Thanks!''
           = pre @ clean_gpt_response ''Here is the result: [{\"a\":1}] Thanks!'' @ post)
   \<and> clean_gpt_response ''Here is the result: [{\"a\":1}] Thanks!'' = ''[{\"a\":1}]''
   \<and> \<not> prefix ''```'' (strip '' no json here '')
   \<and> \<not> (\<exists>c\<in>set (strip '' no json here ''). is_open c)
   \<and> clean_gpt_response '' no json here '' = strip '' no json here ''
   \<and> strip '' no json here '' = ''no json here''"
proof -
  let ?r1 = "''```json\<newline>[{\"a\":1}]\<newline>```''"
  let ?r2 = "''Here is the result: [{\"a\":1}] Thanks!''"
  let ?r3 = "'' no json here ''"
  have s1: "strip ?r1 = ?r1" by (simp add: strip_def isspace_def)
  have s2: "strip ?r2 = ?r2" by (simp add: strip_def isspace_def)
  have s3: "strip ?r3 = ''no json here''" by (simp add: strip_def isspace_def)
  have p1: "prefix ''```'' (strip ?r1)" unfolding s1 by simp
  have e1: "clean_gpt_response ?r1 = ''[{\"a\":1}]''" by code_simp
  have e2: "clean_gpt_response ?r2 = ''[{\"a\":1}]''" by code_simp
  have h2: "\<not> prefix ''```'' (strip ?r2) \<and> (\<exists>c\<in>set (strip ?r2). is_open c)
            \<and> (\<exists>c\<in>set (strip ?r2). is_close c)"
    unfolding s2 by (simp add: is_open_def is_close_def)
  have h3: "\<not> prefix ''```'' (strip ?r3) \<and> \<not> (\<exists>c\<in>set (strip ?r3). is_open c)"
    unfolding s3 by (simp add: is_open_def)
  from clean_gpt_response_recovery [of ?r1] p1
  have c1: "\<exists>tag nl inner fence. strip ?r1 = ''```'' @ tag @ nl @ inner @ fence
         \<and> clean_gpt_response ?r1 = strip inner" by blast
  from clean_gpt_response_recovery [of ?r2] h2 e2
  have c2: "\<exists>pre post. strip ?r2 = pre @ clean_gpt_response ?r2 @ post" by auto
  from clean_gpt_response_recovery [of ?r3] h3
  have c3: "clean_gpt_response ?r3 = strip ?r3" by blast
  show ?thesis using p1 c1 e1 h2 c2 e2 h3 c3 s3 by blast
qed

subsection \<open>Unification tool: the rewritten id\<close>

text \<open>
  C3: for every id that contains the marker "_chunk", the rewritten id is the target id,
  then "_chunk", then everything after the first occurrence of "_chunk" in the old id.
  For every id without the marker that starts with the old prefix, the rewritten id is the
  old id with that leading prefix (its first occurrence) replaced by the target id.
  "cand1_chunk2_skills" with target "cand_final" becomes "cand_final_chunk2_skills",
  and "cand1" becomes "cand_final". The derivation never raises.
\<close>

theorem new_id_rewrite:
  "(sublist ''_chunk'' old_id \<longrightarrow>
      (\<exists>pre suf. old_id = pre @ ''_chunk'' @ suf
         \<and> (\<forall>pre' suf'. old_id = pre' @ ''_chunk'' @ suf' \<longrightarrow> length pre \<le> length pre')
         \<and> new_id from_pref target old_id = Inr (target @ ''_chunk'' @ suf)))
   \<and> (\<not> sublist ''_chunk'' old_id \<and> prefix from_pref old_id \<longrightarrow>
        new_id from_pref target old_id = Inr (target @ drop (length from_pref) old_id))
   \<and> new_id ''cand1'' ''cand_final'' ''cand1_chunk2_skills'' = Inr ''cand_final_chunk2_skills''
   \<and> new_id ''cand1'' ''cand_final'' ''cand1'' = Inr ''cand_final''"
proof (intro conjI impI)
  assume "sublist ''_chunk'' old_id"
  then obtain i where i: "find_sub ''_chunk'' old_id = Some i"
    using find_sub_None [of "''_chunk''" old_id] by auto
  from find_sub_Some [OF i] obtain pre suf where
    d: "old_id = pre @ ''_chunk'' @ suf" and l: "length pre = i"
    and m: "\<forall>pre' suf'. old_id = pre' @ ''_chunk'' @ suf' \<longrightarrow> i \<le> length pre'" by blast
  have "drop (i + length ''_chunk'') old_id = suf" using l by (subst d) simp
  then have "splitn ''_chunk'' 1 old_id = [take i old_id, suf]"
    using i by (simp add: numeral_eq_Suc)
  then have "new_id from_pref target old_id = Inr (target @ ''_chunk'' @ suf)"
    using i by (simp add: new_id_def contains_def index_list_def)
  then show "\<exists>pre suf. old_id = pre @ ''_chunk'' @ suf
         \<and> (\<forall>pre' suf'. old_id = pre' @ ''_chunk'' @ suf' \<longrightarrow> length pre \<le> length pre')
         \<and> new_id from_pref target old_id = Inr (target @ ''_chunk'' @ suf)"
    using d l m by blast
next
  assume a: "\<not> sublist ''_chunk'' old_id \<and> prefix from_pref old_id"
  then have "find_sub ''_chunk'' old_id = None" by (simp add: find_sub_None)
  moreover have "find_sub from_pref old_id = Some 0" using a by (simp add: find_sub_prefix)
  ultimately show "new_id from_pref target old_id = Inr (target @ drop (length from_pref) old_id)"
    by (simp add: new_id_def contains_def replace1_def)
next
  show "new_id ''cand1'' ''cand_final'' ''cand1_chunk2_skills'' = Inr ''cand_final_chunk2_skills''"
    by code_simp
next
  show "new_id ''cand1'' ''cand_final'' ''cand1'' = Inr ''cand_final''"
    by code_simp
qed

theorem new_id_rewrite_witness:
  "sublist ''_chunk'' ''cand1_chunk2_skills''
   \<and> (\<exists>pre suf. ''cand1_chunk2_skills'' = pre @ ''_chunk'' @ suf
         \<and> new_id ''cand1'' ''cand_final'' ''cand1_chunk2_skills'' = Inr (''cand_final'' @ ''_chunk'' @ suf))
   \<and> \<not> sublist ''_chunk'' ''cand17'' \<and> prefix ''cand1'' ''cand17''
   \<and> new_id ''cand1'' ''cand_final'' ''cand17'' = Inr ''cand_final7''"
proof -
  have h1: "sublist ''_chunk'' ''cand1_chunk2_skills''" by code_simp
  have h2: "\<not> sublist ''_chunk'' ''cand17'' \<and> prefix ''cand1'' ''cand17''" by code_simp
  from new_id_rewrite [of "''cand1_chunk2_skills''" "''cand1''" "''cand_final''"] h1
  have c1: "\<exists>pre suf. ''cand1_chunk2_skills'' = pre @ ''_chunk'' @ suf
         \<and> new_id ''cand1'' ''cand_final'' ''cand1_chunk2_skills'' = Inr (''cand_final'' @ ''_chunk'' @ suf)"
    by blast
  from new_id_rewrite [of "''cand17''" "''cand1''" "''cand_final''"] h2
  have "new_id ''cand1'' ''cand_final'' ''cand17'' = Inr (''cand_final'' @ drop (length ''cand1'') ''cand17'')"
    by blast
  then have c2: "new_id ''cand1'' ''cand_final'' ''cand17'' = Inr ''cand_final7''" by simp
  show ?thesis using h1 h2 c1 c2 by blast
qed

subsection \<open>Unification tool: deletion is gated\<close>

lemma is_delete_simps [simp]:
  "is_delete (Deleted b)" "is_delete (DeleteFailed b)"
  "\<not> is_delete (Upserted r)" "\<not> is_delete (UpsertFailed r)"
  by (simp_all add: is_delete_def)

lemma is_upsert_failure_simps [simp]:
  "\<not> is_upsert_failure (Deleted b)" "\<not> is_upsert_failure (DeleteFailed b)"
  "\<not> is_upsert_failure (Upserted r)" "is_upsert_failure (UpsertFailed r)"
  by (simp_all add: is_upsert_failure_def)

lemma upsert_loop_trace:
  "\<exists>new. snd (upsert_loop args env bs tr) = tr @ new
     \<and> (\<forall>ev\<in>set new. \<not> is_delete ev)
     \<and> (fst (upsert_loop args env bs tr) = None \<longrightarrow> (\<forall>ev\<in>set new. \<not> is_upsert_failure ev))
     \<and> ((\<exists>ev\<in>set new. is_upsert_failure ev) \<longrightarrow> fst (upsert_loop args env bs tr) = Some (Exit 1))"
proof (induction bs arbitrary: tr)
  case Nil
  then show ?case by simp
next
  case (Cons batch rest)
  show ?case
  proof (cases "fetch env batch")
    case None
    then show ?thesis by simp
  next
    case (Some vecs)
    show ?thesis
    proof (cases "to_upsert_of args vecs batch")
      case (Inl e)
      then show ?thesis using Some by simp
    next
      case (Inr to_upsert)
      show ?thesis
      proof (cases "to_upsert = []")
        case True
        then have "upsert_loop args env (batch # rest) tr = upsert_loop args env rest tr"
          using Some Inr by simp
        then show ?thesis using Cons.IH [of tr] by simp
      next
        case ne: False
        show ?thesis
        proof (cases "upsert_ok env to_upsert")
          case True
          then have eq: "upsert_loop args env (batch # rest) tr
                       = upsert_loop args env rest (tr @ [Upserted to_upsert])"
            using Some Inr ne by simp
          from Cons.IH [of "tr @ [Upserted to_upsert]"] obtain new where
            n: "snd (upsert_loop args env rest (tr @ [Upserted to_upsert]))
                  = (tr @ [Upserted to_upsert]) @ new"
            and d: "\<forall>ev\<in>set new. \<not> is_delete ev"
            and c: "fst (upsert_loop args env rest (tr @ [Upserted to_upsert])) = None
                      \<longrightarrow> (\<forall>ev\<in>set new. \<not> is_upsert_failure ev)"
            and f: "(\<exists>ev\<in>set new. is_upsert_failure ev)
                      \<longrightarrow> fst (upsert_loop args env rest (tr @ [Upserted to_upsert])) = Some (Exit 1)"
            by (elim exE conjE) (rule that)
          show ?thesis
          proof (intro exI conjI)
            show "snd (upsert_loop args env (batch # rest) tr) = tr @ (Upserted to_upsert # new)"
              using eq n by simp
            show "\<forall>ev\<in>set (Upserted to_upsert # new). \<not> is_delete ev" using d by simp
            show "fst (upsert_loop args env (batch # rest) tr) = None
                      \<longrightarrow> (\<forall>ev\<in>set (Upserted to_upsert # new). \<not> is_upsert_failure ev)"
              using eq c by simp
            show "(\<exists>ev\<in>set (Upserted to_upsert # new). is_upsert_failure ev)
                      \<longrightarrow> fst (upsert_loop args env (batch # rest) tr) = Some (Exit 1)"
              using eq f by simp
          qed
        next
          case False
          then have "upsert_loop args env (batch # rest) tr
                       = (Some (Exit 1), tr @ [UpsertFailed to_upsert])"
            using Some Inr ne by simp
          then show ?thesis by simp
        qed
      qed
    qed
  qed
qed

lemma delete_loop_all_delete: "\<forall>ev\<in>set (delete_loop env bs). is_delete ev"
  by (induction bs) auto

lemma delete_not_failure: "is_delete ev \<Longrightarrow> \<not> is_upsert_failure ev"
  by (cases ev) (auto simp: is_delete_def is_upsert_failure_def)

lemma unify_run_shape:
  "\<exists>ups dels. snd (unify_run args env) = ups @ dels
     \<and> (\<forall>ev\<in>set ups. \<not> is_delete ev) \<and> (\<forall>ev\<in>set dels. is_delete ev)
     \<and> (dels \<noteq> [] \<longrightarrow> delete_old args
            \<and> (\<exists>typed. confirm_input env = Some typed \<and> strip typed = ''DELETE'')
            \<and> (\<forall>ev\<in>set ups. \<not> is_upsert_failure ev))
     \<and> ((\<exists>ev\<in>set ups. is_upsert_failure ev) \<longrightarrow> fst (unify_run args env) = Exit 1)"
proof -
  have trivial: ?thesis if "snd (unify_run args env) = []"
    using that by simp
  show ?thesis
  proof (cases "list_ids env")
    case None
    then show ?thesis by (intro trivial) (simp add: unify_run_def)
  next
    case (Some listed)
    define found_ids where "found_ids = dedupe (filter (\<lambda>i. startswith i (from_prefix args)) listed)"
    show ?thesis
    proof (cases "found_ids = []")
      case True
      then show ?thesis using Some by (intro trivial) (simp add: unify_run_def found_ids_def)
    next
      case ne: False
      show ?thesis
      proof (cases "chunks found_ids (batch_size args)")
        case (Inl e)
        then show ?thesis using Some ne
          by (intro trivial) (simp add: unify_run_def found_ids_def)
      next
        case (Inr batches)
        obtain stop tr where ul: "upsert_loop args env batches [] = (stop, tr)"
          by (cases "upsert_loop args env batches []") auto
        from upsert_loop_trace [of args env batches "[]"] ul
        have nd: "\<forall>ev\<in>set tr. \<not> is_delete ev"
          and nf: "stop = None \<longrightarrow> (\<forall>ev\<in>set tr. \<not> is_upsert_failure ev)"
          and fx: "(\<exists>ev\<in>set tr. is_upsert_failure ev) \<longrightarrow> stop = Some (Exit 1)"
          by auto
        have run: "unify_run args env =
            (case stop of
               Some st \<Rightarrow> (st, tr)
             | None \<Rightarrow>
                 if delete_old args then
                   (case confirm_input env of
                      None \<Rightarrow> (Raised EOFError, tr)
                    | Some confirm \<Rightarrow>
                        if strip confirm = ''DELETE'' then (Finished, tr @ delete_loop env batches)
                        else (Finished, tr))
                 else (Finished, tr))"
          using Some ne Inr ul
          by (simp add: unify_run_def found_ids_def Let_def split: option.splits)
        have only_ups: ?thesis if "snd (unify_run args env) = tr"
          and "(\<exists>ev\<in>set tr. is_upsert_failure ev) \<longrightarrow> fst (unify_run args env) = Exit 1"
        proof (intro exI conjI)
          show "snd (unify_run args env) = tr @ []" using that by simp
        qed (use nd that in simp_all)
        show ?thesis
        proof (cases stop)
          case (Some st)
          then show ?thesis using run fx by (intro only_ups) auto
        next
          case None
          then have nf': "\<forall>ev\<in>set tr. \<not> is_upsert_failure ev" using nf by simp
          show ?thesis
          proof (cases "delete_old args \<and> (\<exists>typed. confirm_input env = Some typed \<and> strip typed = ''DELETE'')")
            case False
            then show ?thesis using run None nf'
              by (intro only_ups) (auto split: option.splits)
          next
            case True
            then have r: "unify_run args env = (Finished, tr @ delete_loop env batches)"
              using run None by auto
            show ?thesis
            proof (intro exI conjI)
              show "snd (unify_run args env) = tr @ delete_loop env batches" using r by simp
              show "\<forall>ev\<in>set (delete_loop env batches). is_delete ev"
                by (rule delete_loop_all_delete)
            qed (use nd nf' True in simp_all)
          qed
        qed
      qed
    qed
  qed
qed

text \<open>
  C5 (as the specification states it, refuted): any confirmation input other than the
  exact literal "DELETE" is said to leave all old records retained. The input " DELETE "
  (with surrounding blanks) is another input, and the old records are deleted.
\<close>

theorem unify_confirm_counterexample:
  "'' DELETE '' \<noteq> ''DELETE''
   \<and> unify_run unify_example_args (unify_example_env '' DELETE '')
       = (Finished,
          [Upserted [(''cand_final_chunk1_summary'', [1], [(''candidate_id'', ''cand_final'')])],
           Deleted [''cand1_chunk1_summary'']])"
  by (simp add: unify_run_def unify_example_args_def unify_example_env_def dedupe_def
      startswith_def chunks_def chunks_pos.simps new_id_def contains_def index_list_def
      strip_def isspace_def Let_def)

text \<open>
  C5 (amended): if the run issues a delete call then the flag \<open>--delete-old\<close> was
  given, the operator's answer equals "DELETE" after leading and trailing whitespace is
  removed, and no upsert of the run failed. A failed upsert ends the run with exit
  status 1 and without any delete call. Every delete call comes after all upsert calls.
\<close>

theorem unify_delete_gated:
  "((\<exists>ev\<in>set (snd (unify_run args env)). is_delete ev) \<longrightarrow>
       delete_old args
       \<and> (\<exists>typed. confirm_input env = Some typed \<and> strip typed = ''DELETE'')
       \<and> (\<forall>ev\<in>set (snd (unify_run args env)). \<not> is_upsert_failure ev))
   \<and> ((\<exists>ev\<in>set (snd (unify_run args env)). is_upsert_failure ev) \<longrightarrow>
       fst (unify_run args env) = Exit 1
       \<and> (\<forall>ev\<in>set (snd (unify_run args env)). \<not> is_delete ev))
   \<and> (\<exists>ups dels. snd (unify_run args env) = ups @ dels
         \<and> (\<forall>ev\<in>set ups. \<not> is_delete ev) \<and> (\<forall>ev\<in>set dels. is_delete ev))"
proof -
  from unify_run_shape [of args env] obtain ups dels where
    sh: "snd (unify_run args env) = ups @ dels"
    and u: "\<forall>ev\<in>set ups. \<not> is_delete ev" and d: "\<forall>ev\<in>set dels. is_delete ev"
    and g: "dels \<noteq> [] \<longrightarrow> delete_old args
            \<and> (\<exists>typed. confirm_input env = Some typed \<and> strip typed = ''DELETE'')
            \<and> (\<forall>ev\<in>set ups. \<not> is_upsert_failure ev)"
    and f: "(\<exists>ev\<in>set ups. is_upsert_failure ev) \<longrightarrow> fst (unify_run args env) = Exit 1"
    by (elim exE conjE) (rule that)
  have df: "\<forall>ev\<in>set dels. \<not> is_upsert_failure ev" using d delete_not_failure by blast
  have c1: "(\<exists>ev\<in>set (snd (unify_run args env)). is_delete ev) \<longrightarrow>
       delete_old args
       \<and> (\<exists>typed. confirm_input env = Some typed \<and> strip typed = ''DELETE'')
       \<and> (\<forall>ev\<in>set (snd (unify_run args env)). \<not> is_upsert_failure ev)"
  proof
    assume "\<exists>ev\<in>set (snd (unify_run args env)). is_delete ev"
    then have "dels \<noteq> []" using sh u by auto
    with g df show "delete_old args
       \<and> (\<exists>typed. confirm_input env = Some typed \<and> strip typed = ''DELETE'')
       \<and> (\<forall>ev\<in>set (snd (unify_run args env)). \<not> is_upsert_failure ev)"
      unfolding sh by auto
  qed
  have c2: "(\<exists>ev\<in>set (snd (unify_run args env)). is_upsert_failure ev) \<longrightarrow>
       fst (unify_run args env) = Exit 1
       \<and> (\<forall>ev\<in>set (snd (unify_run args env)). \<not> is_delete ev)"
  proof
    assume a: "\<exists>ev\<in>set (snd (unify_run args env)). is_upsert_failure ev"
    then have uf: "\<exists>ev\<in>set ups. is_upsert_failure ev" using sh df by auto
    then have "dels = []" using g by blast
    then show "fst (unify_run args env) = Exit 1
       \<and> (\<forall>ev\<in>set (snd (unify_run args env)). \<not> is_delete ev)"
      using uf f u sh by simp
  qed
  have c3: "\<exists>ups dels. snd (unify_run args env) = ups @ dels
         \<and> (\<forall>ev\<in>set ups. \<not> is_delete ev) \<and> (\<forall>ev\<in>set dels. is_delete ev)"
    using sh u d by blast
  show ?thesis using c1 c2 c3 by (intro conjI)
qed

theorem unify_delete_gated_witness:
  "(\<exists>ev\<in>set (snd (unify_run unify_example_args (unify_example_env ''DELETE''))). is_delete ev)
   \<and> delete_old unify_example_args
   \<and> (\<exists>typed. confirm_input (unify_example_env ''DELETE'') = Some typed \<and> strip typed = ''DELETE'')
   \<and> (\<exists>ev\<in>set (snd (unify_run unify_example_args
          ((unify_example_env ''DELETE'')\<lparr>upsert_ok := (\<lambda>recs. False)\<rparr>))). is_upsert_failure ev)
   \<and> fst (unify_run unify_example_args
          ((unify_example_env ''DELETE'')\<lparr>upsert_ok := (\<lambda>recs. False)\<rparr>)) = Exit 1"
proof -
  let ?ok = "unify_example_env ''DELETE''"
  let ?bad = "(unify_example_env ''DELETE'')\<lparr>upsert_ok := (\<lambda>recs. False)\<rparr>"
  have "snd (unify_run unify_example_args ?ok)
       = [Upserted [(''cand_final_chunk1_summary'', [1], [(''candidate_id'', ''cand_final'')])],
           Deleted [''cand1_chunk1_summary'']]"
    by (simp add: unify_run_def unify_example_args_def unify_example_env_def dedupe_def
      startswith_def chunks_def chunks_pos.simps new_id_def contains_def index_list_def
      strip_def isspace_def Let_def)
  then have h1: "\<exists>ev\<in>set (snd (unify_run unify_example_args ?ok)). is_delete ev" by simp
  have "snd (unify_run unify_example_args ?bad)
       = [UpsertFailed [(''cand_final_chunk1_summary'', [1], [(''candidate_id'', ''cand_final'')])]]"
    by (simp add: unify_run_def unify_example_args_def unify_example_env_def dedupe_def
      startswith_def chunks_def chunks_pos.simps new_id_def contains_def index_list_def
      strip_def isspace_def Let_def)
  then have h2: "\<exists>ev\<in>set (snd (unify_run unify_example_args ?bad)). is_upsert_failure ev" by simp
  from unify_delete_gated [of unify_example_args ?ok] h1
  have c1: "delete_old unify_example_args
       \<and> (\<exists>typed. confirm_input ?ok = Some typed \<and> strip typed = ''DELETE'')" by blast
  from unify_delete_gated [of unify_example_args ?bad] h2
  have c2: "fst (unify_run unify_example_args ?bad) = Exit 1" by blast
  show ?thesis using h1 h2 c1 c2 by (intro conjI) simp_all
qed

subsection \<open>Candidate aggregator\<close>

lemma splitn_nonempty: "splitn sep n s \<noteq> []"
  by (cases n) (auto split: option.splits)

lemma setdefault_append_keys:
  "map fst (setdefault_append m k v) = (if k \<in> set (map fst m) then map fst m else map fst m @ [k])"
  by (induction m k v rule: setdefault_append.induct) auto

lemma setdefault_append_map_of:
  "map_of (setdefault_append m k v)
     = (map_of m)(k \<mapsto> (case map_of m k of None \<Rightarrow> [v] | Some vs \<Rightarrow> vs @ [v]))"
  by (induction m k v rule: setdefault_append.induct) (auto simp: fun_eq_iff)

lemma group_by_candidate_inv:
  "distinct (map fst (group_by_candidate xs))
   \<and> set (map fst (group_by_candidate xs)) = cid_of ` set xs
   \<and> (\<forall>c. map_of (group_by_candidate xs) c
          = (if c \<in> cid_of ` set xs then Some (map fst (filter (\<lambda>i. cid_of i = c) xs)) else None))"
proof (induction xs rule: rev_induct)
  case Nil
  then show ?case by (simp add: group_by_candidate_def)
next
  case (snoc x xs)
  let ?m = "group_by_candidate xs"
  have step: "group_by_candidate (xs @ [x]) = setdefault_append ?m (cid_of x) (fst x)"
    by (simp add: group_by_candidate_def)
  from snoc have d: "distinct (map fst ?m)" and k: "set (map fst ?m) = cid_of ` set xs"
    and mo: "\<And>c. map_of ?m c
          = (if c \<in> cid_of ` set xs then Some (map fst (filter (\<lambda>i. cid_of i = c) xs)) else None)"
    by simp_all
  have fe: "filter (\<lambda>i. cid_of i = c) xs = []" if "c \<notin> cid_of ` set xs" for c
    using that by (induction xs) auto
  have "distinct (map fst (group_by_candidate (xs @ [x])))"
    unfolding step setdefault_append_keys using d by simp
  moreover have "set (map fst (group_by_candidate (xs @ [x]))) = cid_of ` set (xs @ [x])"
    unfolding step setdefault_append_keys using k by auto
  moreover have "\<forall>c. map_of (group_by_candidate (xs @ [x])) c
          = (if c \<in> cid_of ` set (xs @ [x])
             then Some (map fst (filter (\<lambda>i. cid_of i = c) (xs @ [x]))) else None)"
    unfolding step setdefault_append_map_of using mo fe by auto
  ultimately show ?case by blast
qed

lemma group_by_candidate_mem:
  assumes "(c, vs) \<in> set (group_by_candidate xs)"
  shows "c \<in> cid_of ` set xs \<and> vs = map fst (filter (\<lambda>i. cid_of i = c) xs)"
proof -
  have "distinct (map fst (group_by_candidate xs))" using group_by_candidate_inv by blast
  then have "map_of (group_by_candidate xs) c = Some vs" using assms by simp
  then show ?thesis using group_by_candidate_inv [of xs] by (auto split: if_splits)
qed

text \<open>
  C9: the summary has one group per candidate id (the metadata value of a chunk that
  carries a non-empty one); the chunks of a group are exactly the fetched chunks of that
  candidate, in their original order; and the groups are listed by descending chunk count.
  The chunks "x_chunk1_summary", "x_chunk2_skills", "y_chunk1_summary" give group "x"
  (2 chunks) followed by group "y" (1 chunk).
\<close>

theorem candidate_summary_partition:
  "distinct (map fst (candidate_summary fetched))
   \<and> set (map fst (candidate_summary fetched)) = cid_of ` set fetched
   \<and> (\<forall>(c, vids) \<in> set (candidate_summary fetched).
         vids = map fst (filter (\<lambda>item. cid_of item = c) fetched))
   \<and> sorted_wrt (\<lambda>a b. length (snd a) \<ge> length (snd b)) (candidate_summary fetched)
   \<and> (\<forall>item \<in> set fetched. \<forall>c. snd item = Some c \<and> c \<noteq> [] \<longrightarrow> cid_of item = c)
   \<and> candidate_summary [(''x_chunk1_summary'', Some ''x''), (''x_chunk2_skills'', Some ''x''),
          (''y_chunk1_summary'', Some ''y'')]
       = [(''x'', [''x_chunk1_summary'', ''x_chunk2_skills'']), (''y'', [''y_chunk1_summary''])]"
proof (intro conjI)
  let ?m = "group_by_candidate fetched"
  let ?f = "\<lambda>x :: string \<times> string list. - int (length (snd x))"
  have ms: "mset (candidate_summary fetched) = mset ?m"
    by (simp add: candidate_summary_def sorted_by_count_desc_def)
  then have "mset (map fst (candidate_summary fetched)) = mset (map fst ?m)" by simp
  then have dq: "distinct (map fst (candidate_summary fetched)) = distinct (map fst ?m)"
    and st: "set (map fst (candidate_summary fetched)) = set (map fst ?m)"
    by (metis mset_eq_imp_distinct_iff, metis mset_eq_setD)
  show "distinct (map fst (candidate_summary fetched))"
    using dq group_by_candidate_inv by blast
  show "set (map fst (candidate_summary fetched)) = cid_of ` set fetched"
    using st group_by_candidate_inv by blast
  have "set (candidate_summary fetched) = set ?m" using ms by (rule mset_eq_setD)
  then show "\<forall>(c, vids) \<in> set (candidate_summary fetched).
         vids = map fst (filter (\<lambda>item. cid_of item = c) fetched)"
    using group_by_candidate_mem by blast
  have "sorted (map ?f (sort_key ?f ?m))" by (rule sorted_sort_key)
  then have "sorted_wrt (\<lambda>a b. ?f a \<le> ?f b) (sort_key ?f ?m)"
    unfolding sorted_map .
  then show "sorted_wrt (\<lambda>a b. length (snd a) \<ge> length (snd b)) (candidate_summary fetched)"
    by (simp add: candidate_summary_def sorted_by_count_desc_def)
  show "\<forall>item \<in> set fetched. \<forall>c. snd item = Some c \<and> c \<noteq> [] \<longrightarrow> cid_of item = c"
    by (simp add: cid_of_def)
  show "candidate_summary [(''x_chunk1_summary'', Some ''x''), (''x_chunk2_skills'', Some ''x''),
          (''y_chunk1_summary'', Some ''y'')]
       = [(''x'', [''x_chunk1_summary'', ''x_chunk2_skills'']), (''y'', [''y_chunk1_summary''])]"
    by code_simp
qed

theorem candidate_summary_partition_witness:
  "(''x'', [''x_chunk1_summary'', ''x_chunk2_skills''])
     \<in> set (candidate_summary [(''x_chunk1_summary'', Some ''x''), (''y_chunk1_summary'', Some ''y''),
          (''x_chunk2_skills'', Some ''x'')])
   \<and> [''x_chunk1_summary'', ''x_chunk2_skills'']
       = map fst (filter (\<lambda>item. cid_of item = ''x'')
           [(''x_chunk1_summary'', Some ''x''), (''y_chunk1_summary'', Some ''y''),
            (''x_chunk2_skills'', Some ''x'')])
   \<and> (''x_chunk2_skills'', Some ''x'')
       \<in> set [(''x_chunk1_summary'', Some ''x''), (''y_chunk1_summary'', Some ''y''),
            (''x_chunk2_skills'', Some ''x'')]
   \<and> cid_of (''x_chunk2_skills'', Some ''x'') = ''x''"
proof -
  let ?ex = "[(''x_chunk1_summary'', Some ''x''), (''y_chunk1_summary'', Some ''y''),
          (''x_chunk2_skills'', Some ''x'')]"
  have "candidate_summary ?ex
          = [(''x'', [''x_chunk1_summary'', ''x_chunk2_skills'']), (''y'', [''y_chunk1_summary''])]"
    by code_simp
  then have m: "(''x'', [''x_chunk1_summary'', ''x_chunk2_skills'']) \<in> set (candidate_summary ?ex)"
    by simp
  have i: "(''x_chunk2_skills'', Some ''x'') \<in> set ?ex" by simp
  from candidate_summary_partition [of ?ex]
  have a: "\<forall>(c, vids) \<in> set (candidate_summary ?ex).
         vids = map fst (filter (\<lambda>item. cid_of item = c) ?ex)"
    and b: "\<forall>item \<in> set ?ex. \<forall>c. snd item = Some c \<and> c \<noteq> [] \<longrightarrow> cid_of item = c"
    by blast+
  from a m have "[''x_chunk1_summary'', ''x_chunk2_skills'']
       = map fst (filter (\<lambda>item. cid_of item = ''x'') ?ex)" by blast
  moreover from b i have "cid_of (''x_chunk2_skills'', Some ''x'') = ''x''" by fastforce
  ultimately show ?thesis using m i by blast
qed

subsection \<open>LLM response decoding\<close>

text \<open>
  The decoding step succeeds with the first parse when the recovered text parses, else
  with the parse of the block the regular expression finds in the original text; it
  fails exactly when both fail. Well-shaped results are normalised as expected.
\<close>

lemma safe_json_load_fails_iff:
  "(\<exists>e. safe_json_load loads s = Inl e)
     \<longleftrightarrow> loads (clean_gpt_response s) = None
         \<and> (\<forall>m. re_search_block s = Some m \<longrightarrow> loads m = None)"
  by (auto simp: safe_json_load_def Let_def split: option.splits)

lemma safe_json_load_first:
  "loads (clean_gpt_response s) = Some v \<Longrightarrow> safe_json_load loads s = Inr v"
  by (simp add: safe_json_load_def)

lemma safe_json_load_second:
  "loads (clean_gpt_response s) = None \<Longrightarrow> re_search_block s = Some m \<Longrightarrow> loads m = Some v
     \<Longrightarrow> safe_json_load loads s = Inr v"
  by (simp add: safe_json_load_def)

lemma parsed_list_of_well_shaped:
  "parsed_list_of (JArr xs) = JArr xs"
  "map_of kvs ''evaluations'' = Some (JArr (x # xs)) \<Longrightarrow> parsed_list_of (JObj kvs) = JArr (x # xs)"
  "map_of kvs ''evaluations'' = None \<Longrightarrow> map_of kvs ''results'' = Some (JArr (x # xs))
     \<Longrightarrow> parsed_list_of (JObj kvs) = JArr (x # xs)"
  "\<not> is_dict v \<Longrightarrow> \<not> is_list v \<Longrightarrow> parsed_list_of v = JArr []"
  by (simp_all add: parsed_list_of_def py_or_def)

text \<open>
  C6 (the code departs from it): every successfully parsed shape other than a list, or
  an object holding a list under "evaluations" or "results", should normalise to the
  empty list. The object \<open>{"evaluations": 5}\<close> normalises to the number 5, which is
  not a list; the loop over \<open>parsed_list\<close> that follows then raises TypeError.
\<close>

theorem parsed_list_of_non_list:
  "parsed_list_of (JObj [(''evaluations'', JInt 5)]) = JInt 5
   \<and> \<not> is_list (parsed_list_of (JObj [(''evaluations'', JInt 5)]))
   \<and> parsed_list_of (JObj [(''evaluations'', JInt 5)]) \<noteq> JArr []"
  by (simp add: parsed_list_of_def)

subsection \<open>Identity normalizer\<close>

lemma split_ws_from_chars:
  "x \<in> set (split_ws_from w s) \<Longrightarrow> c \<in> set x \<Longrightarrow> c \<in> set w \<or> (c \<in> set s \<and> \<not> isspace c)"
proof (induction s arbitrary: w)
  case Nil
  then show ?case by (auto split: if_splits)
next
  case (Cons a s)
  show ?case
  proof (cases "isspace a")
    case True
    then have "x \<in> set (split_ws_from [] s) \<or> x = w"
      using Cons.prems(1) by (auto split: if_splits)
    then show ?thesis using Cons.IH [of "[]"] Cons.prems(2) by auto
  next
    case False
    then have "x \<in> set (split_ws_from (w @ [a]) s)" using Cons.prems(1) by simp
    from Cons.IH [OF this Cons.prems(2)] show ?thesis using False by auto
  qed
qed

lemma join_chars: "set (join sep xs) \<subseteq> set sep \<union> \<Union> (set ` set xs)"
  by (induction sep xs rule: join.induct) auto

lemma hex_is_key: "is_hex_char c \<Longrightarrow> is_key_char c"
  by (auto simp: is_hex_char_def is_key_char_def is_id_char_def Let_def)

lemma slug_keep_nonspace: "slug_keep c \<Longrightarrow> \<not> isspace c \<Longrightarrow> is_key_char c"
  by (auto simp: slug_keep_def is_key_char_def is_id_char_def isspace_def Let_def)

lemma slugify_chars: "\<forall>c\<in>set (slugify t). is_key_char c"
proof -
  define s where "s = map (\<lambda>c. if slug_keep c then c else CHR '' '')
                        (lower (strip (case t of None \<Rightarrow> [] | Some u \<Rightarrow> u)))"
  have keep: "\<forall>c\<in>set s. slug_keep c" by (auto simp: s_def slug_keep_def)
  have words: "\<forall>x\<in>set (split_ws s). \<forall>c\<in>set x. is_key_char c"
  proof (intro ballI)
    fix x c
    assume "x \<in> set (split_ws s)" and "c \<in> set x"
    then have "c \<in> set s \<and> \<not> isspace c"
      using split_ws_from_chars [of x "[]" s c] unfolding split_ws_def by simp
    then show "is_key_char c" using keep slug_keep_nonspace by blast
  qed
  have us: "is_key_char CHR ''_''" by (simp add: is_key_char_def is_id_char_def)
  have j: "\<forall>c\<in>set (join ''_'' (split_ws s)). is_key_char c"
    using join_chars [of "''_''" "split_ws s"] words us by auto
  then have "\<forall>c\<in>set (take 64 (join ''_'' (split_ws s))). is_key_char c"
    by (auto dest: in_set_takeD)
  moreover have "\<forall>c\<in>set ''section''. is_key_char c"
    by (simp add: is_key_char_def is_id_char_def)
  ultimately show ?thesis unfolding slugify_def Let_def s_def [symmetric] by simp
qed

lemma slugify_length: "length (slugify t) \<le> 64"
  by (simp add: slugify_def Let_def)

lemma str_nat_chars: "\<forall>c\<in>set (str_nat n). is_key_char c"
proof (induction n rule: str_nat.induct)
  case (1 n)
  have d: "is_key_char (char_of (48 + k))" if "k < 10" for k :: nat
    using that by (simp add: is_key_char_def is_id_char_def Let_def)
  show ?case
  proof (cases "n < 10")
    case True
    then show ?thesis using d [of n] by (subst str_nat.simps) simp
  next
    case False
    then show ?thesis using 1 d [of "n mod 10"] by (subst str_nat.simps) simp
  qed
qed

lemma str_int_chars: "\<forall>c\<in>set (str_int i). is_key_char c"
  using str_nat_chars by (simp add: str_int_def is_key_char_def)

lemma short_hex_chars:
  "\<forall>s. \<forall>c\<in>set (h s). is_hex_char c \<Longrightarrow> \<forall>c\<in>set (short_hex h x n). is_key_char c"
  by (auto simp: short_hex_def dest!: in_set_takeD intro: hex_is_key)

lemma short_hex_length: "length (short_hex h x n) \<le> n"
  by (simp add: short_hex_def)

lemma literal_chars:
  "\<forall>c\<in>set ''resumes_''. is_key_char c" "\<forall>c\<in>set ''_chunk''. is_key_char c"
  "\<forall>c\<in>set ''_''. is_key_char c"
  by (simp_all add: is_key_char_def is_id_char_def)

lemma candidate_id_shape:
  "(\<exists>t x. deterministic_candidate_id env obj method
            = ''resumes_'' @ slugify t @ ''_'' @ short_hex (sha1_hexdigest env) x 6)
   \<or> (\<exists>x. deterministic_candidate_id env obj method
            = ''resumes_'' @ short_hex (sha1_hexdigest env) x 6)
   \<or> deterministic_candidate_id env obj method = ''resumes_'' @ take 12 (uuid4_hex env)"
proof -
  define u where "u = (method = ''uuid'')"
  define e where "e = (method = ''email'' \<and> str_truthy (email_of obj))"
  define n where "n = (method = ''name''
     \<and> str_truthy (or_else (or_else (meta_candidate_name obj) (obj_candidate_name obj)) (Some [])))"
  define h where "h = (method = ''content_hash'')"
  have eq: "deterministic_candidate_id env obj method =
     (let name = or_else (or_else (meta_candidate_name obj) (obj_candidate_name obj)) (Some [])
      in if u then ''resumes_'' @ take 12 (uuid4_hex env)
         else if e then
           ''resumes_''
             @ slugify (or_else name
                          (Some (hd (split_all ''@'' (case email_of obj of None \<Rightarrow> [] | Some e \<Rightarrow> e)))))
             @ ''_'' @ short_hex (sha1_hexdigest env) (email_of obj) 6
         else if n then
           ''resumes_'' @ slugify name @ ''_'' @ short_hex (sha1_hexdigest env) name 6
         else if h then
           ''resumes_''
             @ short_hex (sha1_hexdigest env) (or_else (full_text obj) (Some (json_dumps env obj))) 6
         else ''resumes_'' @ take 12 (uuid4_hex env))"
    unfolding deterministic_candidate_id_def u_def e_def n_def h_def Let_def ..
  show ?thesis
  proof (cases u)
    case True
    then show ?thesis unfolding eq Let_def by (simp only: if_True) blast
  next
    case nu: False
    show ?thesis
    proof (cases e)
      case True
      then show ?thesis unfolding eq Let_def using nu by (simp only: if_True if_False) blast
    next
      case ne: False
      show ?thesis
      proof (cases n)
        case True
        then show ?thesis unfolding eq Let_def using nu ne by (simp only: if_True if_False) blast
      next
        case nn: False
        show ?thesis
        proof (cases h)
          case True
          then show ?thesis unfolding eq Let_def using nu ne nn
            by (simp only: if_True if_False) blast
        next
          case False
          then show ?thesis unfolding eq Let_def using nu ne nn
            by (simp only: if_True if_False) blast
        qed
      qed
    qed
  qed
qed

lemma candidate_id_chars:
  assumes h: "\<forall>s. \<forall>c\<in>set (sha1_hexdigest env s). is_hex_char c"
    and u: "\<forall>c\<in>set (uuid4_hex env). is_hex_char c"
  shows "\<forall>c\<in>set (deterministic_candidate_id env obj method). is_key_char c"
proof -
  have uu: "\<forall>c\<in>set (take 12 (uuid4_hex env)). is_key_char c"
    using u by (auto dest!: in_set_takeD intro: hex_is_key)
  have sh: "\<forall>c\<in>set (short_hex (sha1_hexdigest env) x 6). is_key_char c" for x
    using h by (rule short_hex_chars)
  have a: "\<forall>c\<in>set (''resumes_'' @ slugify t @ ''_'' @ short_hex (sha1_hexdigest env) x 6). is_key_char c"
    for t x
    using sh [of x] slugify_chars [of t] literal_chars(1,3) by (simp only: set_append ball_Un)
  have b: "\<forall>c\<in>set (''resumes_'' @ short_hex (sha1_hexdigest env) x 6). is_key_char c" for x
    using sh [of x] literal_chars(1) by (simp only: set_append ball_Un)
  have c: "\<forall>c\<in>set (''resumes_'' @ take 12 (uuid4_hex env)). is_key_char c"
    using uu literal_chars(1) by (simp only: set_append ball_Un)
  show ?thesis using candidate_id_shape [of env obj "method"] a b c by metis
qed

lemma candidate_id_length: "length (deterministic_candidate_id env obj method) \<le> 79"
proof -
  have l8: "length ''resumes_'' = 8" and l1: "length ''_'' = 1" by simp_all
  have a: "length (''resumes_'' @ slugify t @ ''_'' @ short_hex (sha1_hexdigest env) x 6) \<le> 79"
    for t x
  proof -
    have "length (''resumes_'' @ slugify t @ ''_'' @ short_hex (sha1_hexdigest env) x 6)
            = 8 + (length (slugify t) + (1 + length (short_hex (sha1_hexdigest env) x 6)))"
      by (simp only: length_append l8 l1)
    then show ?thesis
      using slugify_length [of t] short_hex_length [of "sha1_hexdigest env" x 6] by linarith
  qed
  have b: "length (''resumes_'' @ short_hex (sha1_hexdigest env) x 6) \<le> 79" for x
  proof -
    have "length (''resumes_'' @ short_hex (sha1_hexdigest env) x 6)
            = 8 + length (short_hex (sha1_hexdigest env) x 6)"
      by (simp only: length_append l8)
    then show ?thesis using short_hex_length [of "sha1_hexdigest env" x 6] by linarith
  qed
  have c: "length (''resumes_'' @ take 12 (uuid4_hex env)) \<le> 79"
    by simp
  show ?thesis using candidate_id_shape [of env obj "method"] a b c by metis
qed

lemma build_vector_id_chars:
  assumes "\<forall>c\<in>set candidate_id. is_key_char c"
  shows "\<forall>c\<in>set (build_vector_id candidate_id chunk_index section). is_key_char c"
  using assms str_int_chars [of chunk_index] slugify_chars [of "Some section"] literal_chars(2,3)
  unfolding build_vector_id_def by (simp only: set_append ball_Un)

lemma build_vector_id_length:
  "length (build_vector_id candidate_id chunk_index section)
     \<le> length candidate_id + length (str_int chunk_index) + 71"
proof -
  have "length (build_vector_id candidate_id chunk_index section)
          = length candidate_id + (6 + (length (str_int chunk_index) + (1 + length (slugify (Some section)))))"
    unfolding build_vector_id_def by simp
  then show ?thesis using slugify_length [of "Some section"] by linarith
qed

text \<open>
  C4 (as the specification states it, refuted): identifiers are said to consist of
  lowercase alphanumerics and underscores only, and to stay under roughly 70 characters.
  The name "Jean-Luc Picard" gives the candidate id "resumes_jean-luc_picard_efa38c",
  which contains a hyphen, and a vector id built from it has 96 characters.
\<close>

theorem candidate_id_counterexample:
  "deterministic_candidate_id (example_id_env ''efa38c6037b5c904067e82eb13cb8ca5a22b693c'')
       (empty_seed_obj\<lparr>meta_candidate_name := Some ''Jean-Luc Picard''\<rparr>) ''name''
     = ''resumes_jean-luc_picard_efa38c''
   \<and> CHR ''-'' \<in> set ''resumes_jean-luc_picard_efa38c'' \<and> \<not> is_id_char CHR ''-''
   \<and> length (build_vector_id
         (deterministic_candidate_id (example_id_env ''efa38c6037b5c904067e82eb13cb8ca5a22b693c'')
            (empty_seed_obj\<lparr>meta_candidate_name := Some ''Jean-Luc Picard''\<rparr>) ''name'')
         12 ''Professional Experience and Selected Projects (2015 - 2024)'') = 96"
  by code_simp

text \<open>
  C4 (amended): when the SHA-1 digest and the UUID are written with lowercase hex digits,
  every candidate id, and every vector id built from it, consists of lowercase
  alphanumerics, underscores and hyphens only. A candidate id has at most 79 characters
  (the 8 of "resumes_", a slug cut to 64, a separator and 6 hash digits), and a vector
  id at most 150 characters plus the decimal form of the chunk index.
\<close>

theorem candidate_id_charset_length:
  "((\<forall>s. \<forall>c\<in>set (sha1_hexdigest env s). is_hex_char c) \<and> (\<forall>c\<in>set (uuid4_hex env). is_hex_char c)
      \<longrightarrow> (\<forall>c\<in>set (deterministic_candidate_id env obj method). is_id_char c \<or> c = CHR ''-'')
        \<and> (\<forall>c\<in>set (build_vector_id (deterministic_candidate_id env obj method) chunk_index section).
              is_id_char c \<or> c = CHR ''-''))
   \<and> length (deterministic_candidate_id env obj method) \<le> 79
   \<and> length (build_vector_id (deterministic_candidate_id env obj method) chunk_index section)
        \<le> 150 + length (str_int chunk_index)"
proof (intro conjI impI)
  assume a: "(\<forall>s. \<forall>c\<in>set (sha1_hexdigest env s). is_hex_char c)
               \<and> (\<forall>c\<in>set (uuid4_hex env). is_hex_char c)"
  then have k: "\<forall>c\<in>set (deterministic_candidate_id env obj method). is_key_char c"
    using candidate_id_chars [of env obj "method"] by blast
  then show "\<forall>c\<in>set (deterministic_candidate_id env obj method). is_id_char c \<or> c = CHR ''-''"
    unfolding is_key_char_def .
  show "\<forall>c\<in>set (build_vector_id (deterministic_candidate_id env obj method) chunk_index section).
              is_id_char c \<or> c = CHR ''-''"
    using build_vector_id_chars [OF k] unfolding is_key_char_def .
next
  show "length (deterministic_candidate_id env obj method) \<le> 79" by (rule candidate_id_length)
next
  show "length (build_vector_id (deterministic_candidate_id env obj method) chunk_index section)
        \<le> 150 + length (str_int chunk_index)"
    using build_vector_id_length [of "deterministic_candidate_id env obj method" chunk_index "section"]
      candidate_id_length [of env obj "method"] by linarith
qed

theorem candidate_id_charset_length_witness:
  "CHR ''-'' \<in> set (deterministic_candidate_id
                       (example_id_env ''efa38c6037b5c904067e82eb13cb8ca5a22b693c'')
                       (empty_seed_obj\<lparr>meta_candidate_name := Some ''Jean-Luc Picard''\<rparr>) ''name'')
   \<and> CHR ''j'' \<in> set (deterministic_candidate_id
                       (example_id_env ''efa38c6037b5c904067e82eb13cb8ca5a22b693c'')
                       (empty_seed_obj\<lparr>meta_candidate_name := Some ''Jean-Luc Picard''\<rparr>) ''name'')
   \<and> (is_id_char CHR ''j'' \<or> CHR ''j'' = CHR ''-'')
   \<and> length (deterministic_candidate_id
                (example_id_env ''efa38c6037b5c904067e82eb13cb8ca5a22b693c'')
                (empty_seed_obj\<lparr>meta_candidate_name := Some ''Jean-Luc Picard''\<rparr>) ''name'') \<le> 79"
proof -
  let ?env = "example_id_env ''efa38c6037b5c904067e82eb13cb8ca5a22b693c''"
  let ?obj = "empty_seed_obj\<lparr>meta_candidate_name := Some ''Jean-Luc Picard''\<rparr>"
  have h: "(\<forall>s. \<forall>c\<in>set (sha1_hexdigest ?env s). is_hex_char c)
            \<and> (\<forall>c\<in>set (uuid4_hex ?env). is_hex_char c)"
    by (simp add: example_id_env_def is_hex_char_def)
  have v: "deterministic_candidate_id ?env ?obj ''name'' = ''resumes_jean-luc_picard_efa38c''"
    by code_simp
  then have m: "CHR ''-'' \<in> set (deterministic_candidate_id ?env ?obj ''name'')"
    and j: "CHR ''j'' \<in> set (deterministic_candidate_id ?env ?obj ''name'')"
    by simp_all
  from candidate_id_charset_length [of ?env ?obj "''name''"] h
  have a: "\<forall>c\<in>set (deterministic_candidate_id ?env ?obj ''name''). is_id_char c \<or> c = CHR ''-''"
    and l: "length (deterministic_candidate_id ?env ?obj ''name'') \<le> 79"
    by blast+
  from a j have "is_id_char CHR ''j'' \<or> CHR ''j'' = CHR ''-''" by blast
  then show ?thesis using m j l by blast
qed

end
